theory Spec2Isabelle
  imports Complex_Main "HOL-Library.Multiset"
begin

section \<open>Strings\<close>

text \<open>
  Go strings are byte sequences; they are modelled as \<open>string\<close> (lists of 8-bit
  characters). Case mapping and character classes are the ASCII ones: a byte outside
  \<open>A-Z\<close> and \<open>a-z\<close> has no case here.
\<close>

definition upper_letters :: string where
  "upper_letters = ''ABCDEFGHIJKLMNOPQRSTUVWXYZ''"

definition lower_letters :: string where
  "lower_letters = ''abcdefghijklmnopqrstuvwxyz''"

definition digit_chars :: string where
  "digit_chars = ''0123456789''"

definition is_upper :: "char \<Rightarrow> bool" where
  "is_upper c \<longleftrightarrow> c \<in> set upper_letters"

definition is_lower :: "char \<Rightarrow> bool" where
  "is_lower c \<longleftrightarrow> c \<in> set lower_letters"

definition is_digit :: "char \<Rightarrow> bool" where
  "is_digit c \<longleftrightarrow> c \<in> set digit_chars"

definition to_lower :: "char \<Rightarrow> char" where
  "to_lower c = (case map_of (zip upper_letters lower_letters) c of Some d \<Rightarrow> d | None \<Rightarrow> c)"

definition to_upper :: "char \<Rightarrow> char" where
  "to_upper c = (case map_of (zip lower_letters upper_letters) c of Some d \<Rightarrow> d | None \<Rightarrow> c)"

text \<open>\<^verbatim>\<open>strings.ToLower\<close> and \<^verbatim>\<open>strings.ToUpper\<close>.\<close>

definition ToLower :: "string \<Rightarrow> string" where
  "ToLower s = map to_lower s"

definition ToUpper :: "string \<Rightarrow> string" where
  "ToUpper s = map to_upper s"

text \<open>
  \<^verbatim>\<open>strings.Split(s, sep)\<close> for a one-character separator: the result always has at
  least one element, and \<open>n\<close> separators give \<open>n + 1\<close> pieces.
\<close>

fun Split :: "string \<Rightarrow> char \<Rightarrow> string list" where
  "Split [] sep = [[]]"
| "Split (c # cs) sep =
     (if c = sep then [] # Split cs sep
      else (case Split cs sep of p # ps \<Rightarrow> (c # p) # ps | [] \<Rightarrow> [[c]]))"

text \<open>\<^verbatim>\<open>strings.Join(parts, sep)\<close>.\<close>

fun Join :: "string list \<Rightarrow> string \<Rightarrow> string" where
  "Join [] sep = []"
| "Join [p] sep = p"
| "Join (p # q # ps) sep = p @ sep @ Join (q # ps) sep"

definition is_space :: "char \<Rightarrow> bool" where
  "is_space c \<longleftrightarrow> c \<in> set [CHR 0x09, CHR 0x0A, CHR 0x0B, CHR 0x0C, CHR 0x0D, CHR '' '']"

text \<open>\<^verbatim>\<open>strings.TrimSpace\<close>.\<close>

definition TrimSpace :: "string \<Rightarrow> string" where
  "TrimSpace s = rev (dropWhile is_space (rev (dropWhile is_space s)))"

section \<open>Errors\<close>

text \<open>
  Every error value the package can hand back, and \<open>Panic\<close> for a run-time panic (which
  is not a returned error: it unwinds the caller).
\<close>

datatype error =
    InvalidBooleanError
  | UnknownConventionError string
  | TargetNotPointer
  | TargetNotStruct
  | UnsupportedTargetType
  | AtoiError
  | ParseFloatError
  | JSONUnmarshalError
  | ReaderError string
  | Panic

section \<open>Helpers\<close>

text \<open>
  \<^verbatim>\<open>matchFirstCap = "(.)([A-Z][a-z]+)"\<close> replaced by \<^verbatim>\<open>"${1}_${2}"\<close>: scanning from the
  left, a character other than newline followed by a capital and a (longest) run of at
  least one lower-case letter gets an underscore after it; the scan goes on after the run.
\<close>

function replaceFirstCap :: "string \<Rightarrow> string" where
  "replaceFirstCap [] = []"
| "replaceFirstCap [c] = [c]"
| "replaceFirstCap [c, u] = [c, u]"
| "replaceFirstCap (c # u # l # more) =
     (if c \<noteq> CHR 0x0A \<and> is_upper u \<and> is_lower l
      then c # CHR ''_'' # u # takeWhile is_lower (l # more)
             @ replaceFirstCap (dropWhile is_lower (l # more))
      else c # replaceFirstCap (u # l # more))"
  by pat_completeness auto
termination
  by (relation "measure length") (auto intro: le_less_trans [OF length_dropWhile_le])

text \<open>
  \<^verbatim>\<open>matchAllCap = "([a-z0-9])([A-Z])"\<close> replaced by \<^verbatim>\<open>"${1}_${2}"\<close>: matches do not
  overlap, so after a match the scan goes on behind the capital.
\<close>

fun replaceAllCap :: "string \<Rightarrow> string" where
  "replaceAllCap [] = []"
| "replaceAllCap [c] = [c]"
| "replaceAllCap (c # u # rest) =
     (if (is_lower c \<or> is_digit c) \<and> is_upper u
      then c # CHR ''_'' # u # replaceAllCap rest
      else c # replaceAllCap (u # rest))"

definition camelToSnake :: "string \<Rightarrow> bool \<Rightarrow> string" where
  "camelToSnake input ensureLowercase =
     (let input1 = replaceFirstCap input;
          input2 = replaceAllCap input1
      in if ensureLowercase then ToLower input2 else input2)"

text \<open>\<^verbatim>\<open>lcfirst\<close> writes to \<^verbatim>\<open>r[0]\<close>: on the empty string the index is out of range.\<close>

definition lcfirst :: "string \<Rightarrow> error + string" where
  "lcfirst s = (case s of [] \<Rightarrow> Inl Panic | c # cs \<Rightarrow> Inr (to_lower c # cs))"

definition concatenateKeys :: "string list \<Rightarrow> string" where
  "concatenateKeys keys = Join keys ''.''"

definition parseBool :: "string \<Rightarrow> error + bool" where
  "parseBool val =
     (let l = ToLower val in
      if l = ''1'' \<or> l = ''yes'' \<or> l = ''on'' then Inr True
      else if l = ''0'' \<or> l = ''no'' \<or> l = ''off'' then Inr False
      else Inl InvalidBooleanError)"

definition stringOrDefault :: "string \<Rightarrow> string \<Rightarrow> string" where
  "stringOrDefault key defaultValue = (if key = [] then defaultValue else key)"

text \<open>
  The wording of the boolean grammar, letter by letter and independent of
  \<open>ToLower\<close>: \<open>same_ignoring_case s w\<close> holds when \<open>s\<close> spells the lower-case word \<open>w\<close>
  in some mixture of letter cases.
\<close>

fun same_ignoring_case :: "string \<Rightarrow> string \<Rightarrow> bool" where
  "same_ignoring_case [] [] = True"
| "same_ignoring_case (c # cs) (d # ds) =
     ((c = d \<or> (is_lower d \<and> to_upper d = c)) \<and> same_ignoring_case cs ds)"
| "same_ignoring_case _ _ = False"

section \<open>Key normalizers\<close>

datatype KeyNormalizer = SnakeCaseNormalizer | UpperSnakeCaseNormalizer | CamelCaseNormalizer

text \<open>Applies \<open>f\<close> to every part in order; the first panic ends the loop.\<close>

fun map_parts :: "(string \<Rightarrow> error + string) \<Rightarrow> string list \<Rightarrow> error + string list" where
  "map_parts f [] = Inr []"
| "map_parts f (p # ps) =
     (case f p of Inl e \<Rightarrow> Inl e
      | Inr q \<Rightarrow> (case map_parts f ps of Inl e \<Rightarrow> Inl e | Inr qs \<Rightarrow> Inr (q # qs)))"

fun Normalize :: "KeyNormalizer \<Rightarrow> string \<Rightarrow> error + string" where
  "Normalize SnakeCaseNormalizer key = Inr (camelToSnake key True)"
| "Normalize UpperSnakeCaseNormalizer key =
     Inr (Join (map (\<lambda>part. ToUpper (camelToSnake part False)) (Split key CHR ''.'')) ''_'')"
| "Normalize CamelCaseNormalizer key =
     (case map_parts lcfirst (Split key CHR ''.'') of
        Inl e \<Rightarrow> Inl e
      | Inr parts \<Rightarrow> Inr (Join parts ''.''))"

section \<open>Convention resolver\<close>

definition SnakeCaseConvention :: string where "SnakeCaseConvention = ''snake''"
definition CamelCaseConvention :: string where "CamelCaseConvention = ''camel''"
definition UpperSnakeCaseConvention :: string where "UpperSnakeCaseConvention = ''upper_snake''"

definition EnvSourceType :: string where "EnvSourceType = ''env''"
definition YAMLSourceType :: string where "YAMLSourceType = ''yaml''"
definition JSONSourceType :: string where "JSONSourceType = ''json''"

text \<open>
  The package-level table \<^verbatim>\<open>normalizers\<close>; nothing in the package writes to it. A
  missing entry is the nil interface, here \<open>None\<close>.
\<close>

definition GetNormalizer :: "string \<Rightarrow> KeyNormalizer option" where
  "GetNormalizer convention =
     map_of [(SnakeCaseConvention, SnakeCaseNormalizer),
             (CamelCaseConvention, CamelCaseNormalizer),
             (UpperSnakeCaseConvention, UpperSnakeCaseNormalizer)] convention"

text \<open>
  What a decode reads from outside the package: the mutable table
  \<^verbatim>\<open>sourceConventions\<close> (a missing key reads as the empty string), the process
  environment (\<^verbatim>\<open>os.Getenv\<close>: an unset variable reads as the empty string), and the two
  library parsers the environment decoder calls, \<^verbatim>\<open>strconv.ParseFloat\<close> and the JSON
  syntax of \<^verbatim>\<open>encoding/json\<close> (\<open>None\<close>: the text is rejected).
\<close>

datatype sval =
    SNil
  | SBool bool
  | SInt int
  | SFloat rat
  | SString string
  | SSlice "sval list"
  | SMap "(string \<times> sval) list"
  | SIfaceMapNil

record world =
  sourceConventions :: "string \<Rightarrow> string"
  Getenv :: "string \<Rightarrow> string"
  ParseFloat :: "string \<Rightarrow> rat option"
  json_syntax :: "string \<Rightarrow> sval option"

definition default_sourceConventions :: "string \<Rightarrow> string" where
  "default_sourceConventions sourceType =
     (case map_of [(EnvSourceType, UpperSnakeCaseConvention),
                   (YAMLSourceType, SnakeCaseConvention),
                   (JSONSourceType, CamelCaseConvention)] sourceType of
        Some c \<Rightarrow> c | None \<Rightarrow> [])"

definition SetConventionForSourceType :: "string \<Rightarrow> string \<Rightarrow> world \<Rightarrow> world" where
  "SetConventionForSourceType sourceType convention w =
     w\<lparr>sourceConventions := (sourceConventions w)(sourceType := convention)\<rparr>"

definition GetConventionForSourceType :: "world \<Rightarrow> string \<Rightarrow> string" where
  "GetConventionForSourceType w sourceType =
     (let convention = sourceConventions w sourceType;
          conventionEnvVar = ToUpper sourceType @ ''_CONVENTION''
      in stringOrDefault (Getenv w conventionEnvVar) convention)"

definition NormalizerForSourceType :: "world \<Rightarrow> string \<Rightarrow> string \<Rightarrow> error + KeyNormalizer" where
  "NormalizerForSourceType w convention sourceType =
     (let convention' = (if convention \<noteq> [] then convention
                         else GetConventionForSourceType w sourceType)
      in case GetNormalizer convention' of
           None \<Rightarrow> Inl (UnknownConventionError convention')
         | Some normalizer \<Rightarrow> Inr normalizer)"

section \<open>Source values and the tree accessor\<close>

text \<open>
  Type \<open>sval\<close> above holds the dynamic values a parsed YAML or JSON tree is made of, as
  \<^verbatim>\<open>reflect.ValueOf\<close> sees them: \<open>SNil\<close> is the nil interface (kind Invalid), \<open>SInt\<close> a
  YAML integer, \<open>SFloat\<close> a \<^verbatim>\<open>float64\<close> (held as a rational: rounding is not modelled),
  \<open>SSlice\<close> a \<^verbatim>\<open>[]interface{}\<close>, \<open>SMap\<close> a \<^verbatim>\<open>map[string]interface{}\<close> (an association
  list, read with \<open>map_of\<close>; its order stands for the iteration order of the Go map), and
  \<open>SIfaceMapNil\<close> the nil \<^verbatim>\<open>map[interface{}]interface{}\<close>.
\<close>

datatype MapSource =
  MapSource (source_typ: string) (data: "(string \<times> sval) list") (map_normalizer: "KeyNormalizer option")

datatype EnvSource = EnvSource (env_normalizer: KeyNormalizer)

text \<open>
  The loop of \<^verbatim>\<open>getKeyFromMap\<close>: a part is looked up only in a
  \<^verbatim>\<open>map[string]interface{}\<close>; on any other current value the function returns nil at
  once. A key missing from a map reads as nil.
\<close>

fun descend :: "sval \<Rightarrow> string list \<Rightarrow> sval" where
  "descend v [] = v"
| "descend (SMap m) (part # parts) =
     descend (case map_of m part of None \<Rightarrow> SNil | Some v \<Rightarrow> v) parts"
| "descend _ (part # parts) = SNil"

text \<open>Calling \<^verbatim>\<open>Normalize\<close> on a nil normalizer is a nil dereference.\<close>

definition getKeyFromMap ::
  "KeyNormalizer option \<Rightarrow> (string \<times> sval) list \<Rightarrow> string \<Rightarrow> error + sval" where
  "getKeyFromMap normalizer rootMap key =
     (if key = [] then Inr (SMap rootMap)
      else case normalizer of
             None \<Rightarrow> Inl Panic
           | Some n \<Rightarrow>
               (case Normalize n key of
                  Inl e \<Rightarrow> Inl e
                | Inr key' \<Rightarrow> Inr (descend (SMap rootMap) (Split key' CHR ''.''))))"

section \<open>Target types, values and the heap\<close>

text \<open>
  The type descriptors the decoders dispatch on. Struct types are named and their fields
  are looked up in a table, so a struct may mention itself behind a pointer. Covered are
  \<^verbatim>\<open>bool\<close>, \<^verbatim>\<open>int\<close>, \<^verbatim>\<open>float64\<close>, \<^verbatim>\<open>string\<close>, \<^verbatim>\<open>interface{}\<close>, pointers, slices, maps and
  structs; sized integers, arrays, channels, functions and named non-struct types are not.
  In particular every chain of pointers in a type is finite here: a pointer type defined
  in terms of itself (\<^verbatim>\<open>type P *P\<close>), on which the pointer loops of the two decoders do
  not end, is not among these types.
\<close>

datatype gtype =
    TBool | TInt | TFloat | TString | TIface
  | TPtr gtype | TSlice gtype | TMap gtype gtype | TStruct string

text \<open>
  A \<^verbatim>\<open>reflect.StructField\<close>; \<open>ConfigTag\<close> is \<^verbatim>\<open>field.Tag.Get("config")\<close>. The read-only
  flag that \<^verbatim>\<open>reflect\<close> puts on the value of a field of unexported name is not part of
  the memory below: the decoders give a key to such a field only when it is an embedded
  record or a pointer to one, and the panic of \<^verbatim>\<open>Set\<close> and \<^verbatim>\<open>Interface\<close> on it is not
  modelled.
\<close>

datatype StructField =
  StructField (Name: string) (ConfigTag: string) (Anonymous: bool) (IsExported: bool)
    (FieldType: gtype)

fun is_struct :: "gtype \<Rightarrow> bool" where
  "is_struct (TStruct n) = True"
| "is_struct _ = False"

fun is_slice :: "gtype \<Rightarrow> bool" where
  "is_slice (TSlice t) = True"
| "is_slice _ = False"

definition processStructField :: "StructField \<Rightarrow> string" where
  "processStructField field =
     (let key = ConfigTag field in
      if key = ''-'' then []
      else if Anonymous field
           \<and> \<not> is_struct (case FieldType field of TPtr t \<Rightarrow> t | t \<Rightarrow> t) then []
      else if \<not> Anonymous field \<and> \<not> IsExported field then []
      else if key = [] then Name field
      else key)"

text \<open>
  Values in memory. \<open>VZero\<close> is the zero value of whatever type the slot has (what
  \<^verbatim>\<open>reflect.New\<close> and \<^verbatim>\<open>reflect.MakeSlice\<close> hand out); pointers, slices and maps hold the
  address of a heap object, so copying one shares what it refers to, while a struct is
  copied with its fields. \<open>VDyn\<close> is a source value taken over as it is (into an
  \<^verbatim>\<open>interface{}\<close>, \<^verbatim>\<open>[]interface{}\<close> or \<^verbatim>\<open>map[string]interface{}\<close> slot).
\<close>

datatype gvalue =
    VZero
  | VBool bool
  | VInt int
  | VFloat rat
  | VString string
  | VDyn sval
  | VPtr nat
  | VSlice nat
  | VMap nat
  | VStruct "(nat \<times> gvalue) list"

datatype obj = OCell gvalue | OArr "gvalue list" | OMap "(gvalue \<times> gvalue) list"

type_synonym heap = "obj list"

text \<open>
  A pointer \<^verbatim>\<open>reflect.Value\<close>: the heap object and the path of field indices (for an
  array object, the element index first) to the slot it points at.
\<close>

datatype loc = Loc nat "nat list"

fun field_addr :: "loc \<Rightarrow> nat \<Rightarrow> loc" where
  "field_addr (Loc a p) i = Loc a (p @ [i])"

fun get_path :: "gvalue \<Rightarrow> nat list \<Rightarrow> gvalue" where
  "get_path v [] = v"
| "get_path (VStruct fs) (i # p) =
     (case map_of fs i of Some w \<Rightarrow> get_path w p | None \<Rightarrow> VZero)"
| "get_path _ (i # p) = VZero"

fun set_field :: "nat \<Rightarrow> gvalue \<Rightarrow> (nat \<times> gvalue) list \<Rightarrow> (nat \<times> gvalue) list" where
  "set_field i v [] = [(i, v)]"
| "set_field i v ((j, w) # fs) = (if i = j then (i, v) # fs else (j, w) # set_field i v fs)"

fun set_path :: "gvalue \<Rightarrow> nat list \<Rightarrow> gvalue \<Rightarrow> gvalue" where
  "set_path old [] v = v"
| "set_path (VStruct fs) (i # p) v =
     VStruct (set_field i (set_path (case map_of fs i of Some w \<Rightarrow> w | None \<Rightarrow> VZero) p v) fs)"
| "set_path _ (i # p) v = VStruct [(i, set_path VZero p v)]"

text \<open>
  Reading and writing through a pointer. The decoders only form pointers to slots they
  have allocated or were given, so the branches for a dangling pointer (zero on a read,
  nothing on a write) are never taken by them.
\<close>

definition load :: "heap \<Rightarrow> loc \<Rightarrow> gvalue" where
  "load h l =
     (case l of Loc a p \<Rightarrow>
        if a < length h then
          (case h ! a of
             OCell v \<Rightarrow> get_path v p
           | OArr vs \<Rightarrow>
               (case p of [] \<Rightarrow> VZero
                | i # p' \<Rightarrow> if i < length vs then get_path (vs ! i) p' else VZero)
           | OMap es \<Rightarrow> VZero)
        else VZero)"

definition store :: "heap \<Rightarrow> loc \<Rightarrow> gvalue \<Rightarrow> heap" where
  "store h l v =
     (case l of Loc a p \<Rightarrow>
        if a < length h then
          (case h ! a of
             OCell old \<Rightarrow> h[a := OCell (set_path old p v)]
           | OArr vs \<Rightarrow>
               (case p of [] \<Rightarrow> h
                | i # p' \<Rightarrow>
                    if i < length vs then h[a := OArr (vs[i := set_path (vs ! i) p' v])] else h)
           | OMap es \<Rightarrow> h)
        else h)"

text \<open>\<^verbatim>\<open>newMap.SetMapIndex(k, v)\<close>: the entry for an equal key is overwritten.\<close>

fun set_entry :: "gvalue \<Rightarrow> gvalue \<Rightarrow> (gvalue \<times> gvalue) list \<Rightarrow> (gvalue \<times> gvalue) list" where
  "set_entry k v [] = [(k, v)]"
| "set_entry k v ((k', v') # es) =
     (if k = k' then (k, v) # es else (k', v') # set_entry k v es)"

definition SetMapIndex :: "heap \<Rightarrow> nat \<Rightarrow> gvalue \<Rightarrow> gvalue \<Rightarrow> heap" where
  "SetMapIndex h m k v =
     (if m < length h then
        (case h ! m of OMap es \<Rightarrow> h[m := OMap (set_entry k v es)] | _ \<Rightarrow> h)
      else h)"

text \<open>
  The source handed to a custom decoder, and the decoder itself: \<^verbatim>\<open>ReadConfig\<close> is code
  of the caller, so it is a parameter here, a function of the source it is given, the
  pointer it is called on and the memory, that returns an error or the memory it leaves.
\<close>

datatype Source = MapSourceOf MapSource | PrefixedSource string EnvSource

type_synonym Reader = "Source \<Rightarrow> loc \<Rightarrow> heap \<Rightarrow> error + heap"

record program =
  fields_of :: "string \<Rightarrow> StructField list"
  reader_of :: "string \<Rightarrow> Reader option"

text \<open>What the caller passes as \<^verbatim>\<open>target interface{}\<close>.\<close>

datatype Target = NotAPointer | NilPointer | Pointer loc gtype

section \<open>Structural decoder, map variant\<close>

text \<open>
  \<^verbatim>\<open>string(rune(x))\<close>: the UTF-8 encoding of a code point, and U+FFFD for what is not
  one.
\<close>

definition utf8_encode :: "int \<Rightarrow> string" where
  "utf8_encode r =
     (if r < 0 \<or> 0x10FFFF < r \<or> (0xD800 \<le> r \<and> r \<le> 0xDFFF)
      then [char_of (0xEF :: int), char_of (0xBF :: int), char_of (0xBD :: int)]
      else if r < 0x80 then [char_of r]
      else if r < 0x800 then [char_of (0xC0 + r div 64), char_of (0x80 + r mod 64)]
      else if r < 0x10000
      then [char_of (0xE0 + r div 4096), char_of (0x80 + (r div 64) mod 64),
            char_of (0x80 + r mod 64)]
      else [char_of (0xF0 + r div 262144), char_of (0x80 + (r div 4096) mod 64),
            char_of (0x80 + (r div 64) mod 64), char_of (0x80 + r mod 64)])"

definition truncate_rat :: "rat \<Rightarrow> int" where
  "truncate_rat f = (if f < 0 then - \<lfloor>- f\<rfloor> else \<lfloor>f\<rfloor>)"

text \<open>
  \<^verbatim>\<open>sourceType.ConvertibleTo(targetType)\<close> followed by \<^verbatim>\<open>Convert\<close>, for the source
  values and target types covered: numbers convert among themselves, an integer converts
  to the string of its code point, a string to a string, a bool to a bool, anything to
  \<^verbatim>\<open>interface{}\<close>, and a slice or map to the identical type. \<open>None\<close>: not convertible.
  Integers are unbounded here: a conversion out of the range of \<^verbatim>\<open>int\<close> is not modelled.
\<close>

definition convert :: "gtype \<Rightarrow> sval \<Rightarrow> gvalue option" where
  "convert t v =
     (case v of
        SNil \<Rightarrow> None
      | SBool b \<Rightarrow>
          (case t of TBool \<Rightarrow> Some (VBool b) | TIface \<Rightarrow> Some (VDyn v) | _ \<Rightarrow> None)
      | SInt i \<Rightarrow>
          (case t of
             TInt \<Rightarrow> Some (VInt i)
           | TFloat \<Rightarrow> Some (VFloat (of_int i))
           | TString \<Rightarrow> Some (VString (utf8_encode i))
           | TIface \<Rightarrow> Some (VDyn v)
           | _ \<Rightarrow> None)
      | SFloat f \<Rightarrow>
          (case t of
             TInt \<Rightarrow> Some (VInt (truncate_rat f))
           | TFloat \<Rightarrow> Some (VFloat f)
           | TIface \<Rightarrow> Some (VDyn v)
           | _ \<Rightarrow> None)
      | SString str \<Rightarrow>
          (case t of TString \<Rightarrow> Some (VString str) | TIface \<Rightarrow> Some (VDyn v) | _ \<Rightarrow> None)
      | SSlice xs \<Rightarrow>
          (case t of
             TIface \<Rightarrow> Some (VDyn v)
           | TSlice et \<Rightarrow> (if et = TIface then Some (VDyn v) else None)
           | _ \<Rightarrow> None)
      | SMap m \<Rightarrow>
          (case t of
             TIface \<Rightarrow> Some (VDyn v)
           | TMap kt vt \<Rightarrow> (if kt = TString \<and> vt = TIface then Some (VDyn v) else None)
           | _ \<Rightarrow> None)
      | SIfaceMapNil \<Rightarrow>
          (case t of
             TIface \<Rightarrow> Some (VDyn v)
           | TMap kt vt \<Rightarrow> (if kt = TIface \<and> vt = TIface then Some (VDyn v) else None)
           | _ \<Rightarrow> None))"

text \<open>
  The two closures of the mapping case as data: \<open>KeyInitialized f\<close> sets the flag \<open>f\<close>
  (the variable \<^verbatim>\<open>keyInitialized\<close> of one entry), \<open>CommitEntry f m k v\<close> stores the entry
  read from the key slot \<open>k\<close> and the value slot \<open>v\<close> into the map \<open>m\<close> if the flag \<open>f\<close>
  is set.
\<close>

datatype callbackFunc = NoCallback | KeyInitialized nat | CommitEntry nat nat loc loc

datatype mapQueueItem =
  MapQueueItem (item_source: sval) (item_target: loc) (item_type: gtype)
    (item_callback: callbackFunc)

text \<open>The memory and the \<^verbatim>\<open>keyInitialized\<close> flags allocated so far.\<close>

type_synonym mstate = "heap \<times> bool list"

fun complete :: "callbackFunc \<Rightarrow> mstate \<Rightarrow> mstate" where
  "complete NoCallback st = st"
| "complete (KeyInitialized f) (h, fl) = (h, fl[f := True])"
| "complete (CommitEntry f m k v) (h, fl) =
     (if f < length fl \<and> fl ! f then (SetMapIndex h m (load h k) (load h v), fl) else (h, fl))"

text \<open>
  The pointer loop: while the slot has pointer type, a fresh element is allocated, the
  slot is pointed at it, and the element becomes the target.
\<close>

fun unwrap_pointers :: "heap \<Rightarrow> loc \<Rightarrow> gtype \<Rightarrow> heap \<times> loc \<times> gtype" where
  "unwrap_pointers h l (TPtr t) =
     (let elemPtr = length h;
          h1 = h @ [OCell VZero];
          h2 = store h1 l (VPtr elemPtr)
      in unwrap_pointers h2 (Loc elemPtr []) t)"
| "unwrap_pointers h l t = (h, l, t)"

text \<open>The items of the sequence case: element \<open>i\<close> of the source into slot \<open>i\<close>.\<close>

fun slice_items :: "nat \<Rightarrow> gtype \<Rightarrow> nat \<Rightarrow> sval list \<Rightarrow> mapQueueItem list" where
  "slice_items newSlice et i [] = []"
| "slice_items newSlice et i (x # xs) =
     MapQueueItem x (Loc newSlice [i]) et NoCallback # slice_items newSlice et (Suc i) xs"

text \<open>
  The items of the mapping case: for every entry a fresh flag, a fresh key slot and a
  fresh value slot, then the key item and, after it, the value item.
\<close>

fun entry_items ::
  "nat \<Rightarrow> gtype \<Rightarrow> gtype \<Rightarrow> (string \<times> sval) list \<Rightarrow> mstate \<Rightarrow> mapQueueItem list \<times> mstate" where
  "entry_items newMap kt vt [] st = ([], st)"
| "entry_items newMap kt vt ((k, v) # rest) (h, fl) =
     (let keyInitialized = length fl;
          newKeyPtr = Loc (length h) [];
          newValuePtr = Loc (Suc (length h)) [];
          st1 = (h @ [OCell VZero, OCell VZero], fl @ [False]);
          (items, st2) = entry_items newMap kt vt rest st1
      in (MapQueueItem (SString k) newKeyPtr kt (KeyInitialized keyInitialized)
          # MapQueueItem v newValuePtr vt (CommitEntry keyInitialized newMap newKeyPtr newValuePtr)
          # items, st2))"

text \<open>
  The field loop of the record case: a field with a key whose value in the submapping
  is not nil gets an item; a panic of the normalizer ends the decode.
\<close>

fun field_items ::
  "KeyNormalizer option \<Rightarrow> (string \<times> sval) list \<Rightarrow> loc \<Rightarrow> nat \<Rightarrow> StructField list
   \<Rightarrow> error + mapQueueItem list" where
  "field_items normalizer m tgt i [] = Inr []"
| "field_items normalizer m tgt i (field # rest) =
     (let childKey = processStructField field in
      if childKey = [] then field_items normalizer m tgt (Suc i) rest
      else case getKeyFromMap normalizer m childKey of
             Inl e \<Rightarrow> Inl e
           | Inr childSourceValue \<Rightarrow>
               (case field_items normalizer m tgt (Suc i) rest of
                  Inl e \<Rightarrow> Inl e
                | Inr items \<Rightarrow>
                    if childSourceValue \<noteq> SNil
                    then Inr (MapQueueItem childSourceValue (field_addr tgt i) (FieldType field)
                                NoCallback # items)
                    else Inr items))"

text \<open>
  One turn of the loop of \<^verbatim>\<open>readMapPrimitive\<close> on the item taken from the queue: an
  error that ends the decode, or the items appended to the queue and the new state.
\<close>

definition readMapItem ::
  "program \<Rightarrow> MapSource \<Rightarrow> mapQueueItem \<Rightarrow> mstate \<Rightarrow> error + (mapQueueItem list \<times> mstate)" where
  "readMapItem P s item st =
     (if item_source item = SNil then Inr ([], st)
      else
        let src = item_source item;
            cb = item_callback item;
            fl = snd st;
            (h, tgt, targetType) = unwrap_pointers (fst st) (item_target item) (item_type item)
        in case convert targetType src of
             Some v \<Rightarrow> Inr ([], complete cb (store h tgt v, fl))
           | None \<Rightarrow>
               (case targetType of
                  TBool \<Rightarrow>
                    (case src of
                       SString str \<Rightarrow>
                         (case parseBool str of
                            Inl e \<Rightarrow> Inr ([], (h, fl))
                          | Inr valueBool \<Rightarrow> Inr ([], complete cb (store h tgt (VBool valueBool), fl)))
                     | SFloat f \<Rightarrow> Inr ([], complete cb (store h tgt (VBool (0 < f)), fl))
                     | _ \<Rightarrow> Inr ([], (h, fl)))
                | TSlice et \<Rightarrow>
                    (case src of
                       SSlice xs \<Rightarrow>
                         (let newSlice = length h;
                              h1 = h @ [OArr (replicate (length xs) VZero)];
                              h2 = store h1 tgt (VSlice newSlice)
                          in Inr (slice_items newSlice et 0 xs, complete cb (h2, fl)))
                     | _ \<Rightarrow> Inr ([], (h, fl)))
                | TMap kt vt \<Rightarrow>
                    (case src of
                       SMap m \<Rightarrow>
                         (let newMap = length h;
                              (items, (h1, fl1)) = entry_items newMap kt vt m (h @ [OMap []], fl);
                              h2 = store h1 tgt (VMap newMap)
                          in Inr (items, complete cb (h2, fl1)))
                     | SIfaceMapNil \<Rightarrow>
                         (let newMap = length h;
                              h1 = h @ [OMap []];
                              h2 = store h1 tgt (VMap newMap)
                          in Inr ([], complete cb (h2, fl)))
                     | _ \<Rightarrow> Inr ([], (h, fl)))
                | TStruct name \<Rightarrow>
                    (case src of
                       SMap m \<Rightarrow>
                         (case reader_of P name of
                            Some reader \<Rightarrow>
                              (case reader (MapSourceOf (MapSource (source_typ s) m None)) tgt h of
                                 Inl err \<Rightarrow> Inl err
                               | Inr h1 \<Rightarrow> Inr ([], complete cb (h1, fl)))
                          | None \<Rightarrow>
                              (case field_items (map_normalizer s) m tgt 0 (fields_of P name) of
                                 Inl e \<Rightarrow> Inl e
                               | Inr items \<Rightarrow> Inr (items, complete cb (h, fl))))
                     | _ \<Rightarrow> Inr ([], (h, fl)))
                | _ \<Rightarrow> Inr ([], (h, fl))))"

text \<open>
  The queue loop. Whether it returns is a theorem, not an assumption: \<open>None\<close> is the loop
  that never ends.
\<close>

partial_function (option) readMapLoop ::
  "program \<Rightarrow> MapSource \<Rightarrow> mapQueueItem list \<Rightarrow> mstate \<Rightarrow> (error + mstate) option" where
  "readMapLoop P s queue st =
     (case queue of
        [] \<Rightarrow> Some (Inr st)
      | item # rest \<Rightarrow>
          (case readMapItem P s item st of
             Inl err \<Rightarrow> Some (Inl err)
           | Inr (items, st') \<Rightarrow> readMapLoop P s (rest @ items) st'))"

definition readMapPrimitive ::
  "program \<Rightarrow> MapSource \<Rightarrow> sval \<Rightarrow> loc \<Rightarrow> gtype \<Rightarrow> heap \<Rightarrow> (error + heap) option" where
  "readMapPrimitive P s rootSourceValue rootTarget rootType h =
     (case readMapLoop P s [MapQueueItem rootSourceValue rootTarget rootType NoCallback] (h, []) of
        None \<Rightarrow> None
      | Some (Inl err) \<Rightarrow> Some (Inl err)
      | Some (Inr st) \<Rightarrow> Some (Inr (fst st)))"

definition MapSource_ReadKey ::
  "program \<Rightarrow> MapSource \<Rightarrow> string \<Rightarrow> Target \<Rightarrow> heap \<Rightarrow> (error + heap) option" where
  "MapSource_ReadKey P s key target h =
     (case target of
        Pointer tgt t \<Rightarrow>
          (case getKeyFromMap (map_normalizer s) (data s) key of
             Inl e \<Rightarrow> Some (Inl e)
           | Inr val \<Rightarrow> readMapPrimitive P s val tgt t h)
      | _ \<Rightarrow> Some (Inl TargetNotPointer))"

definition MapSource_Read ::
  "program \<Rightarrow> MapSource \<Rightarrow> Target \<Rightarrow> heap \<Rightarrow> (error + heap) option" where
  "MapSource_Read P s target h =
     (case target of
        Pointer tgt t \<Rightarrow>
          if \<not> is_struct t then Some (Inl TargetNotStruct)
          else readMapPrimitive P s (SMap (data s)) tgt t h
      | _ \<Rightarrow> Some (Inl TargetNotPointer))"

definition NewYAMLSource :: "world \<Rightarrow> (string \<times> sval) list \<Rightarrow> string \<Rightarrow> error + MapSource" where
  "NewYAMLSource w d convention =
     (case NormalizerForSourceType w convention YAMLSourceType of
        Inl err \<Rightarrow> Inl err
      | Inr normalizer \<Rightarrow> Inr (MapSource YAMLSourceType d (Some normalizer)))"

definition NewJSONSource :: "world \<Rightarrow> (string \<times> sval) list \<Rightarrow> string \<Rightarrow> error + MapSource" where
  "NewJSONSource w d convention =
     (case NormalizerForSourceType w convention JSONSourceType of
        Inl err \<Rightarrow> Inl err
      | Inr normalizer \<Rightarrow> Inr (MapSource JSONSourceType d (Some normalizer)))"

section \<open>Structural decoder, flat variant\<close>

text \<open>
  \<^verbatim>\<open>strconv.Atoi\<close>: an optional sign and at least one decimal digit, nothing else, and a
  value in the range of a 64-bit \<^verbatim>\<open>int\<close>.
\<close>

definition digits_value :: "string \<Rightarrow> nat" where
  "digits_value ds = foldl (\<lambda>acc c. 10 * acc + (of_char c - 48)) 0 ds"

definition Atoi :: "string \<Rightarrow> error + int" where
  "Atoi s =
     (let neg = (case s of c # cs \<Rightarrow> c = CHR ''-'' | [] \<Rightarrow> False);
          ds = (case s of c # cs \<Rightarrow> if c = CHR ''-'' \<or> c = CHR ''+'' then cs else s | [] \<Rightarrow> [])
      in if ds = [] \<or> \<not> list_all is_digit ds then Inl AtoiError
         else let v = (if neg then - int (digits_value ds) else int (digits_value ds))
              in if v < - (2 ^ 63) \<or> 2 ^ 63 - 1 < v then Inl AtoiError else Inr v)"

text \<open>
  \<^verbatim>\<open>json.Unmarshal\<close> into \<^verbatim>\<open>var data []interface{}\<close>: an array gives its elements,
  \<^verbatim>\<open>null\<close> leaves the slice nil (length 0), anything else is an error.
\<close>

definition Unmarshal_slice :: "world \<Rightarrow> string \<Rightarrow> error + sval" where
  "Unmarshal_slice w value =
     (case json_syntax w value of
        Some (SSlice xs) \<Rightarrow> Inr (SSlice xs)
      | Some SNil \<Rightarrow> Inr (SSlice [])
      | _ \<Rightarrow> Inl JSONUnmarshalError)"

text \<open>
  \<^verbatim>\<open>json.Unmarshal\<close> into \<^verbatim>\<open>var data map[interface{}]interface{}\<close>. The library
  decodes a JSON object only into a map whose key type is a string, an integer or a
  \<^verbatim>\<open>TextUnmarshaler\<close>; for the key type \<^verbatim>\<open>interface{}\<close> it reports an
  \<^verbatim>\<open>UnmarshalTypeError\<close>. So only \<^verbatim>\<open>null\<close> is accepted, and it leaves the map nil.
\<close>

definition Unmarshal_iface_map :: "world \<Rightarrow> string \<Rightarrow> error + sval" where
  "Unmarshal_iface_map w value =
     (case json_syntax w value of
        Some SNil \<Rightarrow> Inr SIfaceMapNil
      | _ \<Rightarrow> Inl JSONUnmarshalError)"

definition readEnvKey :: "world \<Rightarrow> EnvSource \<Rightarrow> string \<Rightarrow> error + string" where
  "readEnvKey w s key =
     (case Normalize (env_normalizer s) key of
        Inl e \<Rightarrow> Inl e
      | Inr key' \<Rightarrow> Inr (Getenv w key'))"

definition readEnvPrimitive ::
  "program \<Rightarrow> world \<Rightarrow> string \<Rightarrow> loc \<Rightarrow> gtype \<Rightarrow> heap \<Rightarrow> (error + heap) option" where
  "readEnvPrimitive P w value tgt targetType h =
     (case targetType of
        TString \<Rightarrow> Some (Inr (store h tgt (VString value)))
      | TInt \<Rightarrow>
          (case Atoi value of
             Inl err \<Rightarrow> Some (Inl err)
           | Inr valueInt \<Rightarrow> Some (Inr (store h tgt (VInt valueInt))))
      | TFloat \<Rightarrow>
          (case ParseFloat w value of
             None \<Rightarrow> Some (Inl ParseFloatError)
           | Some valueFloat \<Rightarrow> Some (Inr (store h tgt (VFloat valueFloat))))
      | TBool \<Rightarrow>
          (case parseBool value of
             Inl err \<Rightarrow> Some (Inl err)
           | Inr valueBool \<Rightarrow> Some (Inr (store h tgt (VBool valueBool))))
      | TMap kt vt \<Rightarrow>
          (case Unmarshal_iface_map w value of
             Inl err \<Rightarrow> Some (Inl err)
           | Inr d \<Rightarrow>
               (case NewJSONSource w [] [] of
                  Inl err \<Rightarrow> Some (Inl err)
                | Inr source \<Rightarrow> readMapPrimitive P source d tgt targetType h))
      | _ \<Rightarrow> Some (Inl UnsupportedTargetType))"

text \<open>
  The element loop of \<^verbatim>\<open>readEnvSlice\<close>: each piece is trimmed and decoded into a fresh
  element, which is zeroed when decoding fails, then copied into the slice.
\<close>

fun readEnvSliceItems ::
  "program \<Rightarrow> world \<Rightarrow> gtype \<Rightarrow> nat \<Rightarrow> nat \<Rightarrow> string list \<Rightarrow> heap \<Rightarrow> heap option" where
  "readEnvSliceItems P w elemType newSlice i [] h = Some h"
| "readEnvSliceItems P w elemType newSlice i (piece # pieces) h =
     (let elemPtr = Loc (length h) [];
          h1 = h @ [OCell VZero]
      in case readEnvPrimitive P w (TrimSpace piece) elemPtr elemType h1 of
           None \<Rightarrow> None
         | Some r \<Rightarrow>
             (let h2 = (case r of Inl err \<Rightarrow> store h1 elemPtr VZero | Inr h' \<Rightarrow> h');
                  h3 = store h2 (Loc newSlice [i]) (load h2 elemPtr)
              in readEnvSliceItems P w elemType newSlice (Suc i) pieces h3))"

definition readEnvSlice ::
  "program \<Rightarrow> world \<Rightarrow> string \<Rightarrow> loc \<Rightarrow> gtype \<Rightarrow> heap \<Rightarrow> (error + heap) option" where
  "readEnvSlice P w value targetPtr elemType h =
     (if value \<noteq> [] then
        (if is_struct elemType \<or> is_slice elemType then
           (case Unmarshal_slice w value of
              Inl err \<Rightarrow> Some (Inl err)
            | Inr d \<Rightarrow>
                (case NewJSONSource w [] [] of
                   Inl err \<Rightarrow> Some (Inl err)
                 | Inr source \<Rightarrow> readMapPrimitive P source d targetPtr (TSlice elemType) h))
         else
           (let valueSlice = Split value CHR '','';
                newSlice = length h;
                h1 = h @ [OArr (replicate (length valueSlice) VZero)]
            in case readEnvSliceItems P w elemType newSlice 0 valueSlice h1 of
                 None \<Rightarrow> None
               | Some h2 \<Rightarrow> Some (Inr (store h2 targetPtr (VSlice newSlice)))))
      else
        (let newSlice = length h;
             h1 = h @ [OArr []]
         in Some (Inr (store h1 targetPtr (VSlice newSlice)))))"

datatype envQueueItem = EnvQueueItem (item_key: string) (env_target: loc) (env_type: gtype)

text \<open>The field loop of the record case: every field with a key gets an item.\<close>

fun env_field_items :: "string \<Rightarrow> loc \<Rightarrow> nat \<Rightarrow> StructField list \<Rightarrow> envQueueItem list" where
  "env_field_items key tgt i [] = []"
| "env_field_items key tgt i (field # rest) =
     (let childKey = processStructField field in
      if childKey = [] then env_field_items key tgt (Suc i) rest
      else
        let absoluteKey = (if key \<noteq> [] then concatenateKeys [key, childKey] else childKey)
        in EnvQueueItem absoluteKey (field_addr tgt i) (FieldType field)
           # env_field_items key tgt (Suc i) rest)"

text \<open>
  One turn of the loop of \<^verbatim>\<open>readKey\<close>: \<open>None\<close> if a decode it calls never returns,
  otherwise an error that ends the decode, or the items appended and the new memory.
\<close>

definition readKeyItem ::
  "program \<Rightarrow> world \<Rightarrow> EnvSource \<Rightarrow> envQueueItem \<Rightarrow> heap
   \<Rightarrow> (error + (envQueueItem list \<times> heap)) option" where
  "readKeyItem P w s item h0 =
     (let (h, targetPtr, targetElemType) = unwrap_pointers h0 (env_target item) (env_type item)
      in case targetElemType of
           TSlice elemType \<Rightarrow>
             (case readEnvKey w s (item_key item) of
                Inl e \<Rightarrow> Some (Inl e)
              | Inr raw \<Rightarrow>
                  (case readEnvSlice P w (TrimSpace raw) targetPtr elemType h of
                     None \<Rightarrow> None
                   | Some (Inl err) \<Rightarrow> Some (Inl err)
                   | Some (Inr h1) \<Rightarrow> Some (Inr ([], h1))))
         | TStruct name \<Rightarrow>
             (case reader_of P name of
                Some reader \<Rightarrow>
                  (case reader (PrefixedSource (item_key item) s) targetPtr h of
                     Inl err \<Rightarrow> Some (Inl err)
                   | Inr h1 \<Rightarrow> Some (Inr ([], h1)))
              | None \<Rightarrow>
                  Some (Inr (env_field_items (item_key item) targetPtr 0 (fields_of P name), h)))
         | _ \<Rightarrow>
             (case readEnvKey w s (item_key item) of
                Inl e \<Rightarrow> Some (Inl e)
              | Inr raw \<Rightarrow>
                  (case readEnvPrimitive P w raw targetPtr targetElemType h of
                     None \<Rightarrow> None
                   | Some (Inl err) \<Rightarrow> Some (Inr ([], h))
                   | Some (Inr h1) \<Rightarrow> Some (Inr ([], h1)))))"

partial_function (option) readKeyLoop ::
  "program \<Rightarrow> world \<Rightarrow> EnvSource \<Rightarrow> envQueueItem list \<Rightarrow> heap \<Rightarrow> (error + heap) option" where
  "readKeyLoop P w s queue h =
     (case queue of
        [] \<Rightarrow> Some (Inr h)
      | item # rest \<Rightarrow>
          (case readKeyItem P w s item h of
             None \<Rightarrow> None
           | Some (Inl err) \<Rightarrow> Some (Inl err)
           | Some (Inr (items, h')) \<Rightarrow> readKeyLoop P w s (rest @ items) h'))"

definition readKey ::
  "program \<Rightarrow> world \<Rightarrow> EnvSource \<Rightarrow> string \<Rightarrow> loc \<Rightarrow> gtype \<Rightarrow> heap \<Rightarrow> (error + heap) option" where
  "readKey P w s rootKey rootTarget rootType h =
     readKeyLoop P w s [EnvQueueItem rootKey rootTarget rootType] h"

definition EnvSource_ReadKey ::
  "program \<Rightarrow> world \<Rightarrow> EnvSource \<Rightarrow> string \<Rightarrow> Target \<Rightarrow> heap \<Rightarrow> (error + heap) option" where
  "EnvSource_ReadKey P w s key target h =
     (case target of
        Pointer tgt t \<Rightarrow> readKey P w s key tgt t h
      | _ \<Rightarrow> Some (Inl TargetNotPointer))"

definition EnvSource_Read ::
  "program \<Rightarrow> world \<Rightarrow> EnvSource \<Rightarrow> Target \<Rightarrow> heap \<Rightarrow> (error + heap) option" where
  "EnvSource_Read P w s target h =
     (case target of
        Pointer tgt t \<Rightarrow>
          if \<not> is_struct t then Some (Inl TargetNotStruct)
          else readKey P w s [] tgt t h
      | _ \<Rightarrow> Some (Inl TargetNotPointer))"

definition NewEnvSource :: "world \<Rightarrow> string \<Rightarrow> error + EnvSource" where
  "NewEnvSource w convention =
     (case NormalizerForSourceType w convention EnvSourceType of
        Inl err \<Rightarrow> Inl err
      | Inr normalizer \<Rightarrow> Inr (EnvSource normalizer))"

section \<open>Notions used in the statements\<close>

fun is_mapping :: "sval \<Rightarrow> bool" where
  "is_mapping (SMap m) = True"
| "is_mapping _ = False"

text \<open>The type behind all the pointers of a type.\<close>

fun strip_pointers :: "gtype \<Rightarrow> gtype" where
  "strip_pointers (TPtr t) = strip_pointers t"
| "strip_pointers t = t"

text \<open>A program without struct types, and a process with nothing set.\<close>

definition no_types :: program where
  "no_types = \<lparr>fields_of = (\<lambda>name. []), reader_of = (\<lambda>name. None)\<rparr>"

definition bare_world :: world where
  "bare_world =
     \<lparr>sourceConventions = default_sourceConventions, Getenv = (\<lambda>name. []),
      ParseFloat = (\<lambda>s. None), json_syntax = (\<lambda>s. None)\<rparr>"

text \<open>
  Queues in which every key item is directly followed by the value item of the same
  entry (same flag, and the key and value slots of the pair), and no value item stands
  anywhere else.
\<close>

fun paired :: "mapQueueItem list \<Rightarrow> bool" where
  "paired [] = True"
| "paired (MapQueueItem src l t NoCallback # rest) = paired rest"
| "paired (MapQueueItem src l t (KeyInitialized f)
           # MapQueueItem src' l' t' (CommitEntry f' m k v) # rest) =
     (f' = f \<and> k = l \<and> v = l' \<and> paired rest)"
| "paired _ = False"

text \<open>
  The queues of a running decode: paired, except that the item at the head may be a
  value item, whose key item was the item taken just before.
\<close>

definition fifo_inv :: "mapQueueItem list \<Rightarrow> bool" where
  "fifo_inv queue =
     (paired queue
      \<or> (case queue of
            MapQueueItem src l t (CommitEntry f m k v) # rest \<Rightarrow> paired rest
          | _ \<Rightarrow> False))"

text \<open>
  \<open>reaches P s c c'\<close>: the loop started in the configuration \<open>c\<close> (queue and state) gets
  to \<open>c'\<close> after some number of turns.
\<close>

inductive reaches ::
  "program \<Rightarrow> MapSource \<Rightarrow> mapQueueItem list \<times> mstate \<Rightarrow> mapQueueItem list \<times> mstate \<Rightarrow> bool"
  for P :: program and s :: MapSource and c :: "mapQueueItem list \<times> mstate" where
  start: "reaches P s c c"
| turn: "reaches P s c (item # rest, st) \<Longrightarrow> readMapItem P s item st = Inr (items, st')
         \<Longrightarrow> reaches P s c (rest @ items, st')"

text \<open>
  The two items of the mapping case for entry number \<open>i\<close> with key \<open>k\<close> and value \<open>v\<close>,
  when the slots are allocated from address \<open>a\<close> and the flags from number \<open>f\<close>.
\<close>

definition entry_pair ::
  "nat \<Rightarrow> gtype \<Rightarrow> gtype \<Rightarrow> nat \<Rightarrow> nat \<Rightarrow> nat \<times> string \<times> sval \<Rightarrow> mapQueueItem list" where
  "entry_pair newMap kt vt a f e =
     (case e of (i, k, v) \<Rightarrow>
        [MapQueueItem (SString k) (Loc (a + 2 * i) []) kt (KeyInitialized (f + i)),
         MapQueueItem v (Loc (a + 2 * i + 1) []) vt
           (CommitEntry (f + i) newMap (Loc (a + 2 * i) []) (Loc (a + 2 * i + 1) []))])"

text \<open>A JSON source holding the object \<^verbatim>\<open>{"a": 1}\<close>.\<close>

definition one_entry_source :: MapSource where
  "one_entry_source = MapSource JSONSourceType [(''a'', SFloat 1)] (Some CamelCaseNormalizer)"

text \<open>
  How deep records nest in a type when every record name has the rank \<open>rank\<close>: the
  flat decoder descends through pointers and record fields only.
\<close>

fun type_depth :: "(string \<Rightarrow> nat) \<Rightarrow> gtype \<Rightarrow> nat" where
  "type_depth rank (TPtr t) = type_depth rank t"
| "type_depth rank (TStruct name) = Suc (rank name)"
| "type_depth rank _ = 0"


text \<open>The same for the loop of the flat variant.\<close>

inductive env_reaches ::
  "program \<Rightarrow> world \<Rightarrow> EnvSource \<Rightarrow> envQueueItem list \<times> heap \<Rightarrow> envQueueItem list \<times> heap \<Rightarrow> bool"
  for P :: program and w :: world and s :: EnvSource and c :: "envQueueItem list \<times> heap" where
  env_start: "env_reaches P w s c c"
| env_turn: "env_reaches P w s c (item # rest, h)
         \<Longrightarrow> readKeyItem P w s item h = Some (Inr (items, h'))
         \<Longrightarrow> env_reaches P w s c (rest @ items, h')"

text \<open>The errors the custom decoders of a program can return.\<close>

definition reader_errors :: "program \<Rightarrow> error set" where
  "reader_errors P =
     {e. \<exists>name reader src l h. reader_of P name = Some reader \<and> reader src l h = Inl e}"

text \<open>A record whose custom decoder always fails.\<close>

definition failing_program :: program where
  "failing_program =
     \<lparr>fields_of = (\<lambda>name. []),
      reader_of = (\<lambda>name. if name = ''Custom''
                          then Some (\<lambda>src l h. Inl (ReaderError ''refused''))
                          else None)\<rparr>"

text \<open>
  The example of the README, \<^verbatim>\<open>OAuth2Providers []OAuth2Provider `config:"oauth2"`\<close>, and
  a process whose variable \<^verbatim>\<open>OAUTH2\<close> holds text that is not JSON.
\<close>

definition oauth_program :: program where
  "oauth_program =
     \<lparr>fields_of = (\<lambda>name.
        if name = ''MyConfig''
        then [StructField ''OAuth2Providers'' ''oauth2'' False True
                (TSlice (TStruct ''OAuth2Provider''))]
        else if name = ''OAuth2Provider''
        then [StructField ''Key'' [] False True TString,
              StructField ''Secret'' [] False True TString]
        else []),
      reader_of = (\<lambda>name. None)\<rparr>"


text \<open>
  A record with one mapping field, and a process whose variable \<^verbatim>\<open>LABELS\<close> holds a JSON
  object that the JSON syntax accepts.
\<close>

definition labels_program :: program where
  "labels_program =
     \<lparr>fields_of = (\<lambda>name. if name = ''Config''
                          then [StructField ''Labels'' [] False True (TMap TString TString)]
                          else []),
      reader_of = (\<lambda>name. None)\<rparr>"

definition labels_world :: world where
  \<open>labels_world =
     bare_world
       \<lparr>Getenv := (\<lambda>name. if name = ''LABELS'' then ''{"a":"b"}'' else []),
        json_syntax := (\<lambda>s. if s = ''{"a":"b"}'' then Some (SMap [(''a'', SString ''b'')])
                             else None)\<rparr>\<close>

text \<open>
  A digit directly followed by a capital letter somewhere in the string: the one place
  where \<open>matchAllCap\<close> still finds a match in an upper-cased key.
\<close>

fun digit_before_upper :: "string \<Rightarrow> bool" where
  "digit_before_upper (c # u # rest) =
     ((is_digit c \<and> is_upper u) \<or> digit_before_upper (u # rest))"
| "digit_before_upper _ = False"

text \<open>
  The normalizers on which \<^verbatim>\<open>Normalize\<close> can panic: the nil normalizer of the source
  handed to a custom decoder, and the camel normalizer (on an empty segment).
\<close>

definition can_panic :: "KeyNormalizer option \<Rightarrow> bool" where
  "can_panic n = (n = None \<or> n = Some CamelCaseNormalizer)"

text \<open>The JSON source the flat variant builds for itself normalizes with the camel normalizer.\<close>

definition json_can_panic :: "world \<Rightarrow> bool" where
  "json_can_panic w =
     (case NewJSONSource w [] [] of Inl e \<Rightarrow> False | Inr src \<Rightarrow> can_panic (map_normalizer src))"

definition kebab_world :: world where
  "kebab_world =
     bare_world
       \<lparr>Getenv := (\<lambda>name. if name = ''JSON_CONVENTION'' then ''kebab''
                           else if name = ''OAUTH2'' then ''[]'' else []),
        json_syntax := (\<lambda>s. if s = ''[]'' then Some (SSlice []) else None)\<rparr>"

definition custom_program :: program where
  "custom_program =
     \<lparr>fields_of = (\<lambda>name.
        if name = ''Config''
        then [StructField ''Name'' [] False True TString,
              StructField ''Inner'' [] False True (TPtr (TStruct ''Custom''))]
        else []),
      reader_of = (\<lambda>name. if name = ''Custom''
                          then Some (\<lambda>src l h. Inl (ReaderError ''refused''))
                          else None)\<rparr>"

definition items_world :: world where
  \<open>items_world =
     bare_world
       \<lparr>Getenv := (\<lambda>name. if name = ''ITEMS'' then ''[{}]'' else []),
        json_syntax := (\<lambda>s. if s = ''[{}]'' then Some (SSlice [SMap []]) else None)\<rparr>\<close>

definition custom_source :: MapSource where
  "custom_source =
     MapSource JSONSourceType [(''name'', SString ''x''), (''inner'', SMap [])]
       (Some CamelCaseNormalizer)"

text \<open>
  A source value that cannot be given the target type in the map variant: it is not nil,
  it does not convert, and it is not a boolean word or a number for a \<^verbatim>\<open>bool\<close>, not a
  sequence for a sequence, not a mapping for a mapping or a record.
\<close>

definition coercion_fails :: "gtype \<Rightarrow> sval \<Rightarrow> bool" where
  "coercion_fails t v =
     (v \<noteq> SNil \<and> convert t v = None \<and>
      (case t of
         TBool \<Rightarrow>
           (case v of
              SString str \<Rightarrow> (case parseBool str of Inl e \<Rightarrow> True | Inr b \<Rightarrow> False)
            | SFloat f \<Rightarrow> False
            | _ \<Rightarrow> True)
       | TSlice et \<Rightarrow> (case v of SSlice xs \<Rightarrow> False | _ \<Rightarrow> True)
       | TMap kt vt \<Rightarrow> (case v of SMap m \<Rightarrow> False | SIfaceMapNil \<Rightarrow> False | _ \<Rightarrow> True)
       | TStruct name \<Rightarrow> \<not> is_mapping v
       | _ \<Rightarrow> True))"



text \<open>
  The flags of the key items waiting in a queue, and the queues whose key items all have
  a string as their source.
\<close>

fun key_flags :: "mapQueueItem list \<Rightarrow> nat list" where
  "key_flags [] = []"
| "key_flags (it # rest) =
     (case item_callback it of KeyInitialized f \<Rightarrow> f # key_flags rest | _ \<Rightarrow> key_flags rest)"

definition string_keys :: "mapQueueItem list \<Rightarrow> bool" where
  "string_keys queue =
     list_all (\<lambda>it. case item_callback it of
                      KeyInitialized f \<Rightarrow> (case item_source it of SString k \<Rightarrow> True | _ \<Rightarrow> False)
                    | _ \<Rightarrow> True) queue"

text \<open>
  The flags of a running decode: the key items waiting in the queue have flags of their
  own, allocated and still unset, and string sources.
\<close>

definition flags_inv :: "mapQueueItem list \<Rightarrow> bool list \<Rightarrow> bool" where
  "flags_inv queue fl =
     (distinct (key_flags queue) \<and> list_all (\<lambda>f. f < length fl \<and> \<not> fl ! f) (key_flags queue)
      \<and> string_keys queue)"

text \<open>
  The types of the items the flat variant can come to from a root of type \<open>t0\<close>: the
  root, and the keyed fields of every record behind the pointers of such a type, unless
  the record has a custom decoder.
\<close>

inductive_set env_types :: "program \<Rightarrow> gtype \<Rightarrow> gtype set"
  for P :: program and t0 :: gtype where
  root: "t0 \<in> env_types P t0"
| field: "t \<in> env_types P t0 \<Longrightarrow> strip_pointers t = TStruct name
     \<Longrightarrow> reader_of P name = None \<Longrightarrow> f \<in> set (fields_of P name)
     \<Longrightarrow> processStructField f \<noteq> [] \<Longrightarrow> FieldType f \<in> env_types P t0"



section \<open>Theorems\<close>

subsection \<open>The boolean grammar\<close>

lemma to_lower_eq_lower:
  "is_lower d \<Longrightarrow> to_lower c = d \<longleftrightarrow> c = d \<or> to_upper d = c"
  unfolding is_lower_def lower_letters_def
  apply (simp only: list.set insert_iff empty_iff simp_thms)
  apply (elim disjE)
  apply (auto simp: to_lower_def to_upper_def upper_letters_def lower_letters_def split: if_splits)
  done

lemma to_lower_eq_digit:
  "is_digit d \<Longrightarrow> to_lower c = d \<longleftrightarrow> c = d"
  unfolding is_digit_def digit_chars_def
  apply (simp only: list.set insert_iff empty_iff simp_thms)
  apply (elim disjE)
  apply (auto simp: to_lower_def upper_letters_def lower_letters_def split: if_splits)
  done

lemma digit_not_lower: "is_digit d \<Longrightarrow> \<not> is_lower d"
  by (auto simp: is_digit_def is_lower_def digit_chars_def lower_letters_def)


lemma to_lower_eq_word_char:
  "is_lower d \<or> is_digit d \<Longrightarrow> to_lower c = d \<longleftrightarrow> c = d \<or> (is_lower d \<and> to_upper d = c)"
  using to_lower_eq_lower [of d c] to_lower_eq_digit [of d c] digit_not_lower [of d]
  by (cases "is_lower d") (simp_all only: simp_thms)

lemma ToLower_eq_word:
  "list_all (\<lambda>d. is_lower d \<or> is_digit d) w \<Longrightarrow> ToLower s = w \<longleftrightarrow> same_ignoring_case s w"
proof (induction s w rule: same_ignoring_case.induct)
  case 1
  show ?case by (simp add: ToLower_def)
next
  case (2 c cs d ds)
  from "2.prems" have d: "is_lower d \<or> is_digit d"
    and ds: "list_all (\<lambda>d. is_lower d \<or> is_digit d) ds"
    by simp_all
  have "ToLower (c # cs) = d # ds \<longleftrightarrow> to_lower c = d \<and> ToLower cs = ds"
    by (simp add: ToLower_def)
  also have "\<dots> \<longleftrightarrow> (c = d \<or> (is_lower d \<and> to_upper d = c)) \<and> same_ignoring_case cs ds"
    by (simp only: to_lower_eq_word_char [OF d] "2.IH" [OF ds])
  finally show ?case by (simp only: same_ignoring_case.simps)
qed (simp_all add: ToLower_def)

lemma word_chars:
  "list_all (\<lambda>d. is_lower d \<or> is_digit d) ''1''"
  "list_all (\<lambda>d. is_lower d \<or> is_digit d) ''yes''"
  "list_all (\<lambda>d. is_lower d \<or> is_digit d) ''on''"
  "list_all (\<lambda>d. is_lower d \<or> is_digit d) ''0''"
  "list_all (\<lambda>d. is_lower d \<or> is_digit d) ''no''"
  "list_all (\<lambda>d. is_lower d \<or> is_digit d) ''off''"
  by (simp_all add: is_lower_def is_digit_def lower_letters_def digit_chars_def)

lemma parseBool_general:
  "parseBool s =
     (if same_ignoring_case s ''1'' \<or> same_ignoring_case s ''yes'' \<or> same_ignoring_case s ''on''
      then Inr True
      else if same_ignoring_case s ''0'' \<or> same_ignoring_case s ''no''
              \<or> same_ignoring_case s ''off''
      then Inr False
      else Inl InvalidBooleanError)"
  unfolding parseBool_def Let_def
  by (simp only: ToLower_eq_word [OF word_chars(1)] ToLower_eq_word [OF word_chars(2)]
        ToLower_eq_word [OF word_chars(3)] ToLower_eq_word [OF word_chars(4)]
        ToLower_eq_word [OF word_chars(5)] ToLower_eq_word [OF word_chars(6)])

lemma parseBool_examples:
  "parseBool ''true'' = Inl InvalidBooleanError"
  "parseBool ''false'' = Inl InvalidBooleanError"
  "parseBool ''YES'' = Inr True"
  "parseBool ''oFf'' = Inr False"
  by (simp_all add: parseBool_def ToLower_def to_lower_def upper_letters_def lower_letters_def)

text \<open>
  C4. \<open>parseBool\<close> answers true exactly on the spellings of \<open>1\<close>, \<open>yes\<close>, \<open>on\<close> in any
  letter case, false exactly on the spellings of \<open>0\<close>, \<open>no\<close>, \<open>off\<close> in any letter case,
  and fails with the invalid-boolean error on every other string, \<open>true\<close> and \<open>false\<close>
  among them.
\<close>

theorem parseBool_grammar:
  "parseBool s =
     (if same_ignoring_case s ''1'' \<or> same_ignoring_case s ''yes'' \<or> same_ignoring_case s ''on''
      then Inr True
      else if same_ignoring_case s ''0'' \<or> same_ignoring_case s ''no''
              \<or> same_ignoring_case s ''off''
      then Inr False
      else Inl InvalidBooleanError)
   \<and> parseBool ''true'' = Inl InvalidBooleanError
   \<and> parseBool ''false'' = Inl InvalidBooleanError
   \<and> parseBool ''YES'' = Inr True \<and> parseBool ''oFf'' = Inr False"
  by (rule conjI [OF parseBool_general conjI [OF parseBool_examples(1)
        conjI [OF parseBool_examples(2) conjI [OF parseBool_examples(3) parseBool_examples(4)]]]])

subsection \<open>Idempotence of the normalizers\<close>

lemma to_lower_not_upper: "\<not> is_upper (to_lower c)"
  by (simp add: to_lower_def is_upper_def upper_letters_def lower_letters_def)

lemma to_lower_idem: "to_lower (to_lower c) = to_lower c"
  by (simp add: to_lower_def upper_letters_def lower_letters_def)

lemma to_upper_not_lower: "\<not> is_lower (to_upper c)"
  by (simp add: to_upper_def is_lower_def upper_letters_def lower_letters_def)

lemma to_upper_fixed: "\<not> is_lower c \<Longrightarrow> to_upper c = c"
  by (simp add: to_upper_def is_lower_def upper_letters_def lower_letters_def)

lemma to_upper_dot: "to_upper c = CHR ''.'' \<longleftrightarrow> c = CHR ''.''"
  by (auto simp add: to_upper_def upper_letters_def lower_letters_def split: if_splits)

lemma to_lower_dot: "to_lower c = CHR ''.'' \<longleftrightarrow> c = CHR ''.''"
  by (auto simp add: to_lower_def upper_letters_def lower_letters_def split: if_splits)

lemma underscore_class: "\<not> is_lower CHR ''_''" "\<not> is_upper CHR ''_''" "CHR ''_'' \<noteq> CHR ''.''"
  by (simp_all add: is_lower_def is_upper_def upper_letters_def lower_letters_def)

lemma replaceFirstCap_no_upper: "\<forall>c \<in> set s. \<not> is_upper c \<Longrightarrow> replaceFirstCap s = s"
  by (induction s rule: replaceFirstCap.induct) auto

lemma replaceFirstCap_no_lower: "\<forall>c \<in> set s. \<not> is_lower c \<Longrightarrow> replaceFirstCap s = s"
  by (induction s rule: replaceFirstCap.induct) auto

lemma replaceAllCap_no_upper: "\<forall>c \<in> set s. \<not> is_upper c \<Longrightarrow> replaceAllCap s = s"
  by (induction s rule: replaceAllCap.induct) auto

lemma replaceAllCap_no_match:
  "\<forall>c \<in> set s. \<not> is_lower c \<Longrightarrow> \<not> digit_before_upper s \<Longrightarrow> replaceAllCap s = s"
  by (induction s rule: replaceAllCap.induct) auto

lemma set_replaceFirstCap: "set (replaceFirstCap s) \<subseteq> insert CHR ''_'' (set s)"
proof (induction s rule: replaceFirstCap.induct)
  case (4 c u l more)
  have "set (takeWhile is_lower (l # more)) \<subseteq> set (l # more)"
    by (auto dest: set_takeWhileD)
  moreover have "set (dropWhile is_lower (l # more)) \<subseteq> set (l # more)"
    by (auto dest: set_dropWhileD)
  ultimately show ?case using 4 by (auto split: if_splits)
qed auto

lemma set_replaceAllCap: "set (replaceAllCap s) \<subseteq> insert CHR ''_'' (set s)"
  by (induction s rule: replaceAllCap.induct) auto


lemma Split_not_Nil: "Split s sep \<noteq> []"
  by (induction s) (auto split: list.splits)

lemma Split_no_sep: "p \<in> set (Split s sep) \<Longrightarrow> sep \<notin> set p"
  by (induction s arbitrary: p) (auto split: list.splits if_splits)

lemma Split_no_sep_id: "sep \<notin> set s \<Longrightarrow> Split s sep = [s]"
  by (induction s) auto

lemma Split_append_sep:
  "sep \<notin> set p \<Longrightarrow> Split (p @ sep # rest) sep = p # Split rest sep"
  by (induction p) auto

lemma Split_Join:
  "parts \<noteq> [] \<Longrightarrow> \<forall>p \<in> set parts. sep \<notin> set p \<Longrightarrow> Split (Join parts [sep]) sep = parts"
proof (induction parts "[sep]" rule: Join.induct)
  case 1
  then show ?case by simp
next
  case (2 p)
  then show ?case by (simp add: Split_no_sep_id)
next
  case (3 p q ps)
  then show ?case by (simp add: Split_append_sep)
qed

lemma set_Join: "set (Join parts sep) \<subseteq> (\<Union>p \<in> set parts. set p) \<union> set sep"
  by (induction parts sep rule: Join.induct) auto

lemma ToLower_idem: "ToLower (ToLower s) = ToLower s"
  by (simp add: ToLower_def to_lower_idem)

lemma snake_idem: "camelToSnake (camelToSnake k True) True = camelToSnake k True"
proof -
  let ?k' = "camelToSnake k True"
  have low: "\<forall>c \<in> set ?k'. \<not> is_upper c"
    by (auto simp: camelToSnake_def ToLower_def to_lower_not_upper)
  have "replaceAllCap (replaceFirstCap ?k') = ?k'"
    using low by (simp add: replaceFirstCap_no_upper replaceAllCap_no_upper)
  then have "camelToSnake ?k' True = ToLower ?k'"
    by (simp add: camelToSnake_def)
  also have "\<dots> = ?k'"
    by (simp add: camelToSnake_def ToLower_idem)
  finally show ?thesis .
qed

lemma map_parts_lcfirst:
  "map_parts lcfirst ps = Inr qs \<Longrightarrow> \<forall>p \<in> set ps. CHR ''.'' \<notin> set p \<Longrightarrow>
     map_parts lcfirst qs = Inr qs \<and> (\<forall>q \<in> set qs. CHR ''.'' \<notin> set q) \<and> length qs = length ps"
proof (induction ps arbitrary: qs)
  case Nil
  then show ?case by simp
next
  case (Cons p ps)
  from Cons.prems(1) obtain q qs' where q: "lcfirst p = Inr q"
    and qs': "map_parts lcfirst ps = Inr qs'" and qs: "qs = q # qs'"
    by (auto split: sum.splits)
  from q obtain c cs where p: "p = c # cs" and q': "q = to_lower c # cs"
    by (auto simp: lcfirst_def split: list.splits)
  from Cons.prems(2) p have "c \<noteq> CHR ''.''" "CHR ''.'' \<notin> set cs" by auto
  then have nodot: "CHR ''.'' \<notin> set q" using to_lower_dot [of c] by (auto simp: q')
  have again: "lcfirst q = Inr q" by (simp add: q' lcfirst_def to_lower_idem)
  from Cons.IH [OF qs'] Cons.prems(2)
  have "map_parts lcfirst qs' = Inr qs' \<and> (\<forall>q \<in> set qs'. CHR ''.'' \<notin> set q) \<and> length qs' = length ps"
    by simp
  with nodot again show ?case by (simp add: qs)
qed

lemma camel_idem:
  assumes "Normalize CamelCaseNormalizer k = Inr k'"
  shows "Normalize CamelCaseNormalizer k' = Inr k'"
proof -
  from assms obtain qs where qs: "map_parts lcfirst (Split k CHR ''.'') = Inr qs"
    and k': "k' = Join qs ''.''"
    by (auto split: sum.splits)
  have "\<forall>p \<in> set (Split k CHR ''.''). CHR ''.'' \<notin> set p"
    by (auto dest: Split_no_sep)
  from map_parts_lcfirst [OF qs this]
  have stable: "map_parts lcfirst qs = Inr qs" and nodot: "\<forall>q \<in> set qs. CHR ''.'' \<notin> set q"
    and len: "length qs = length (Split k CHR ''.'')"
    by simp_all
  from len have "qs \<noteq> []" using Split_not_Nil [of k "CHR ''.''"] by auto
  then have "Split k' CHR ''.'' = qs"
    unfolding k' using nodot by (rule Split_Join)
  then show ?thesis by (simp add: stable k')
qed

lemma upper_part_chars:
  assumes "CHR ''.'' \<notin> set p"
  shows "\<forall>c \<in> set (ToUpper (camelToSnake p False)). \<not> is_lower c \<and> c \<noteq> CHR ''.''"
proof
  fix c assume "c \<in> set (ToUpper (camelToSnake p False))"
  then obtain d where d: "d \<in> set (replaceAllCap (replaceFirstCap p))" and c: "c = to_upper d"
    by (auto simp: ToUpper_def camelToSnake_def)
  from d set_replaceAllCap have "d = CHR ''_'' \<or> d \<in> set (replaceFirstCap p)" by blast
  with set_replaceFirstCap have "d = CHR ''_'' \<or> d \<in> set p" by blast
  with assms have "d \<noteq> CHR ''.''" by auto
  then show "\<not> is_lower c \<and> c \<noteq> CHR ''.''"
    by (simp add: c to_upper_not_lower to_upper_dot)
qed

lemma upper_snake_chars:
  assumes "Normalize UpperSnakeCaseNormalizer k = Inr k'"
  shows "\<forall>c \<in> set k'. \<not> is_lower c \<and> c \<noteq> CHR ''.''"
proof
  fix c assume c: "c \<in> set k'"
  from assms have k': "k' = Join (map (\<lambda>part. ToUpper (camelToSnake part False)) (Split k CHR ''.'')) ''_''"
    by simp
  from c set_Join [of "map (\<lambda>part. ToUpper (camelToSnake part False)) (Split k CHR ''.'')" "''_''"]
  have "c = CHR ''_'' \<or> (\<exists>p \<in> set (Split k CHR ''.''). c \<in> set (ToUpper (camelToSnake p False)))"
    unfolding k' by auto
  then show "\<not> is_lower c \<and> c \<noteq> CHR ''.''"
  proof
    assume "c = CHR ''_''"
    then show ?thesis by (simp add: underscore_class)
  next
    assume "\<exists>p \<in> set (Split k CHR ''.''). c \<in> set (ToUpper (camelToSnake p False))"
    then obtain p where p: "p \<in> set (Split k CHR ''.'')" and cp: "c \<in> set (ToUpper (camelToSnake p False))"
      by blast
    from p have "CHR ''.'' \<notin> set p" by (rule Split_no_sep)
    from upper_part_chars [OF this] cp show ?thesis by blast
  qed
qed

lemma ToUpper_fixed: "\<forall>c \<in> set s. \<not> is_lower c \<Longrightarrow> ToUpper s = s"
  by (induction s) (auto simp: ToUpper_def to_upper_fixed)

lemma upper_snake_idem:
  assumes "Normalize UpperSnakeCaseNormalizer k = Inr k'" and "\<not> digit_before_upper k'"
  shows "Normalize UpperSnakeCaseNormalizer k' = Inr k'"
proof -
  from upper_snake_chars [OF assms(1)]
  have nolow: "\<forall>c \<in> set k'. \<not> is_lower c" and nodot: "CHR ''.'' \<notin> set k'" by auto
  have split: "Split k' CHR ''.'' = [k']" using nodot by (rule Split_no_sep_id)
  have "camelToSnake k' False = k'"
    using nolow assms(2)
    by (simp add: camelToSnake_def replaceFirstCap_no_lower replaceAllCap_no_match)
  then show ?thesis using nolow by (simp add: split ToUpper_fixed)
qed

text \<open>
  C9, as stated, fails for the upper-snake convention: \<open>a1b\<close> normalizes to \<open>A1B\<close>, and
  \<open>A1B\<close> normalizes to \<open>A1_B\<close>, because the upper-cased output has a digit directly
  before a capital.
\<close>

theorem upper_snake_not_idempotent:
  "Normalize UpperSnakeCaseNormalizer ''a1b'' = Inr ''A1B''
   \<and> Normalize UpperSnakeCaseNormalizer ''A1B'' = Inr ''A1_B''"
  by (simp add: camelToSnake_def ToUpper_def to_upper_def is_lower_def is_upper_def is_digit_def
      upper_letters_def lower_letters_def digit_chars_def)


text \<open>
  C9, amended. Lower-snake and camel normalization are idempotent on every key on which
  they return; upper-snake normalization is idempotent on every key whose normalized form
  has no digit directly before a capital letter.
\<close>

theorem normalize_idempotent:
  "(Normalize SnakeCaseNormalizer k = Inr k' \<longrightarrow> Normalize SnakeCaseNormalizer k' = Inr k')
   \<and> (Normalize CamelCaseNormalizer k = Inr k' \<longrightarrow> Normalize CamelCaseNormalizer k' = Inr k')
   \<and> (Normalize UpperSnakeCaseNormalizer k = Inr k' \<longrightarrow> \<not> digit_before_upper k'
        \<longrightarrow> Normalize UpperSnakeCaseNormalizer k' = Inr k')"
proof (intro conjI impI)
  assume "Normalize SnakeCaseNormalizer k = Inr k'"
  then have "k' = camelToSnake k True" by simp
  then show "Normalize SnakeCaseNormalizer k' = Inr k'" by (simp add: snake_idem)
next
  assume "Normalize CamelCaseNormalizer k = Inr k'"
  then show "Normalize CamelCaseNormalizer k' = Inr k'" by (rule camel_idem)
next
  assume "Normalize UpperSnakeCaseNormalizer k = Inr k'" and "\<not> digit_before_upper k'"
  then show "Normalize UpperSnakeCaseNormalizer k' = Inr k'" by (rule upper_snake_idem)
qed

lemma normalize_examples:
  "Normalize SnakeCaseNormalizer ''db.hostName'' = Inr ''db.host_name''"
  "Normalize CamelCaseNormalizer ''Db.HostName'' = Inr ''db.hostName''"
  "Normalize UpperSnakeCaseNormalizer ''db.hostName'' = Inr ''DB_HOST_NAME''"
  "\<not> digit_before_upper ''DB_HOST_NAME''"
  by (simp_all add: camelToSnake_def ToUpper_def ToLower_def to_upper_def to_lower_def lcfirst_def
      is_lower_def is_upper_def is_digit_def upper_letters_def lower_letters_def digit_chars_def)

theorem normalize_idempotent_witness:
  "Normalize SnakeCaseNormalizer ''db.hostName'' = Inr ''db.host_name''
   \<and> Normalize SnakeCaseNormalizer ''db.host_name'' = Inr ''db.host_name''
   \<and> Normalize CamelCaseNormalizer ''Db.HostName'' = Inr ''db.hostName''
   \<and> Normalize CamelCaseNormalizer ''db.hostName'' = Inr ''db.hostName''
   \<and> Normalize UpperSnakeCaseNormalizer ''db.hostName'' = Inr ''DB_HOST_NAME''
   \<and> \<not> digit_before_upper ''DB_HOST_NAME''
   \<and> Normalize UpperSnakeCaseNormalizer ''DB_HOST_NAME'' = Inr ''DB_HOST_NAME''"
proof -
  note a = normalize_idempotent [of "''db.hostName''" "''db.host_name''", THEN conjunct1, THEN mp,
      OF normalize_examples(1)]
  note b = normalize_idempotent [of "''Db.HostName''" "''db.hostName''", THEN conjunct2,
      THEN conjunct1, THEN mp, OF normalize_examples(2)]
  note c = normalize_idempotent [of "''db.hostName''" "''DB_HOST_NAME''", THEN conjunct2,
      THEN conjunct2, THEN mp, THEN mp, OF normalize_examples(3) normalize_examples(4)]
  show ?thesis
    by (rule conjI [OF normalize_examples(1) conjI [OF a conjI [OF normalize_examples(2)
        conjI [OF b conjI [OF normalize_examples(3) conjI [OF normalize_examples(4) c]]]]]])
qed

subsection \<open>Unfolding the loops\<close>

lemma readMapLoop_Nil [code]: "readMapLoop P s [] st = Some (Inr st)"
  by (subst readMapLoop.simps) simp

lemma readMapLoop_Cons [code]:
  "readMapLoop P s (item # rest) st =
     (case readMapItem P s item st of
        Inl err \<Rightarrow> Some (Inl err)
      | Inr (items, st') \<Rightarrow> readMapLoop P s (rest @ items) st')"
  by (subst readMapLoop.simps) simp

lemma readKeyLoop_Nil [code]: "readKeyLoop P w s [] h = Some (Inr h)"
  by (subst readKeyLoop.simps) simp

lemma readKeyLoop_Cons [code]:
  "readKeyLoop P w s (item # rest) h =
     (case readKeyItem P w s item h of
        None \<Rightarrow> None
      | Some (Inl err) \<Rightarrow> Some (Inl err)
      | Some (Inr (items, h')) \<Rightarrow> readKeyLoop P w s (rest @ items) h')"
  by (subst readKeyLoop.simps) simp

subsection \<open>Absent values\<close>

lemma descend_SNil: "descend SNil parts = SNil"
  by (cases parts) simp_all

lemma descend_not_mapping: "\<not> is_mapping v \<Longrightarrow> descend v (part # parts) = SNil"
  by (cases v) simp_all

lemma descend_append: "descend v (ps @ qs) = descend (descend v ps) qs"
proof (induction ps arbitrary: v)
  case Nil
  show ?case by simp
next
  case (Cons p ps)
  show ?case
  proof (cases "is_mapping v")
    case True
    then obtain m where "v = SMap m" by (cases v) simp_all
    then show ?thesis by (simp add: Cons.IH)
  next
    case False
    then show ?thesis by (simp add: descend_not_mapping descend_SNil)
  qed
qed

lemma readMapItem_SNil: "readMapItem P s (MapQueueItem SNil tgt t cb) st = Inr ([], st)"
  by (simp add: readMapItem_def)

lemma readMapPrimitive_SNil: "readMapPrimitive P s SNil tgt t h = Some (Inr h)"
  by (simp add: readMapPrimitive_def readMapLoop_Cons readMapLoop_Nil readMapItem_SNil)

subsection \<open>The camel normalizer on empty segments\<close>

lemma map_parts_lcfirst_ok: "\<forall>p \<in> set ps. p \<noteq> [] \<Longrightarrow> \<exists>qs. map_parts lcfirst ps = Inr qs"
proof (induction ps)
  case Nil
  show ?case by simp
next
  case (Cons p ps)
  then obtain qs where "map_parts lcfirst ps = Inr qs" by auto
  moreover from Cons.prems obtain c cs where "p = c # cs" by (cases p) auto
  then have "lcfirst p = Inr (to_lower c # cs)" by (simp add: lcfirst_def)
  ultimately show ?case by simp
qed

lemma map_parts_lcfirst_panic: "[] \<in> set ps \<Longrightarrow> map_parts lcfirst ps = Inl Panic"
proof (induction ps)
  case Nil
  then show ?case by simp
next
  case (Cons p ps)
  show ?case
  proof (cases p)
    case Nil
    then show ?thesis by (simp add: lcfirst_def)
  next
    case (Cons c cs)
    then have "lcfirst p = Inr (to_lower c # cs)" by (simp add: lcfirst_def)
    moreover from Cons Cons.prems Cons.IH have "map_parts lcfirst ps = Inl Panic" by simp
    ultimately show ?thesis by simp
  qed
qed

lemma camel_returns:
  "\<forall>p \<in> set (Split key CHR ''.''). p \<noteq> [] \<Longrightarrow> \<exists>key'. Normalize CamelCaseNormalizer key = Inr key'"
  using map_parts_lcfirst_ok [of "Split key CHR ''.''"] by auto

lemma camel_panics:
  "[] \<in> set (Split key CHR ''.'') \<Longrightarrow> Normalize CamelCaseNormalizer key = Inl Panic"
  by (simp add: map_parts_lcfirst_panic)

lemma strip_pointers_not_ptr: "strip_pointers t \<noteq> TPtr u"
  by (induction t) simp_all

lemma unwrap_pointers_type:
  "unwrap_pointers h l t = (h', l', t') \<Longrightarrow> t' = strip_pointers t"
  by (induction h l t rule: unwrap_pointers.induct) (auto simp: Let_def)

lemma readKeyItem_panic:
  assumes "Normalize (env_normalizer s) (item_key item) = Inl e"
    and "\<not> is_struct (strip_pointers (env_type item))"
  shows "readKeyItem P w s item h = Some (Inl e)"
proof -
  obtain h1 l1 t1 where u: "unwrap_pointers h (env_target item) (env_type item) = (h1, l1, t1)"
    by (cases "unwrap_pointers h (env_target item) (env_type item)") auto
  then have t1: "t1 = strip_pointers (env_type item)" by (rule unwrap_pointers_type)
  with assms(2) have ns: "\<not> is_struct t1" by simp
  from assms(1) have k: "readEnvKey w s (item_key item) = Inl e" by (simp add: readEnvKey_def)
  from t1 have np: "\<And>x. t1 \<noteq> TPtr x" by (simp add: strip_pointers_not_ptr)
  show ?thesis
    using ns np by (cases t1) (simp_all add: readKeyItem_def Let_def u k)
qed

text \<open>
  C10, amended. The camel normalizer returns on every key whose segments are all
  non-empty and panics on the empty key and on every key with an empty segment. On a
  camel map source \<open>ReadKey\<close> panics for every non-empty key with an empty segment; on a
  camel environment source it panics for every key with an empty segment, the empty key
  included, when the target behind its pointers is not a record.
\<close>

theorem camel_empty_segment:
  "((\<forall>p \<in> set (Split key CHR ''.''). p \<noteq> []) \<longrightarrow> (\<exists>key'. Normalize CamelCaseNormalizer key = Inr key'))
   \<and> ([] \<in> set (Split key CHR ''.'') \<longrightarrow> Normalize CamelCaseNormalizer key = Inl Panic)
   \<and> ([] \<in> set (Split key CHR ''.'') \<longrightarrow> key \<noteq> [] \<longrightarrow>
        MapSource_ReadKey P (MapSource ty d (Some CamelCaseNormalizer)) key (Pointer tgt t) h
          = Some (Inl Panic))
   \<and> ([] \<in> set (Split key CHR ''.'') \<longrightarrow> \<not> is_struct (strip_pointers t) \<longrightarrow>
        EnvSource_ReadKey P w (EnvSource CamelCaseNormalizer) key (Pointer tgt t) h
          = Some (Inl Panic))"
proof (intro conjI impI)
  assume "\<forall>p \<in> set (Split key CHR ''.''). p \<noteq> []"
  then show "\<exists>key'. Normalize CamelCaseNormalizer key = Inr key'" by (rule camel_returns)
next
  assume "[] \<in> set (Split key CHR ''.'')"
  then show "Normalize CamelCaseNormalizer key = Inl Panic" by (rule camel_panics)
next
  assume a: "[] \<in> set (Split key CHR ''.'')" and "key \<noteq> []"
  then show "MapSource_ReadKey P (MapSource ty d (Some CamelCaseNormalizer)) key (Pointer tgt t) h
          = Some (Inl Panic)"
    using camel_panics [OF a] by (simp add: MapSource_ReadKey_def getKeyFromMap_def)
next
  assume a: "[] \<in> set (Split key CHR ''.'')" and ns: "\<not> is_struct (strip_pointers t)"
  have "readKeyItem P w (EnvSource CamelCaseNormalizer) (EnvQueueItem key tgt t) h = Some (Inl Panic)"
    using camel_panics [OF a] ns by (intro readKeyItem_panic) simp_all
  then show "EnvSource_ReadKey P w (EnvSource CamelCaseNormalizer) key (Pointer tgt t) h
          = Some (Inl Panic)"
    by (simp add: EnvSource_ReadKey_def readKey_def readKeyLoop_Cons)
qed

text \<open>
  C10, as stated, fails at the empty key: the normalizer panics on it, but \<open>ReadKey\<close> on a
  camel map source returns the whole tree without normalizing, and here succeeds.
\<close>

theorem camel_empty_key_no_panic:
  "Normalize CamelCaseNormalizer [] = Inl Panic
   \<and> MapSource_ReadKey no_types (MapSource JSONSourceType [] (Some CamelCaseNormalizer)) []
        (Pointer (Loc 0 []) TString) [OCell VZero] = Some (Inr [OCell VZero])"
  by (simp add: lcfirst_def MapSource_ReadKey_def getKeyFromMap_def readMapPrimitive_def
      readMapLoop_Cons readMapLoop_Nil readMapItem_def convert_def)


lemma camel_examples:
  "\<forall>p \<in> set (Split ''db.host'' CHR ''.''). p \<noteq> []"
  "[] \<in> set (Split ''db..host'' CHR ''.'')"
  "''db..host'' \<noteq> []"
  "\<not> is_struct (strip_pointers TString)"
  by simp_all

theorem camel_empty_segment_witness:
  "Split ''db.host'' CHR ''.'' = [''db'', ''host'']
   \<and> (\<exists>key'. Normalize CamelCaseNormalizer ''db.host'' = Inr key')
   \<and> Split ''db..host'' CHR ''.'' = [''db'', [], ''host'']
   \<and> Normalize CamelCaseNormalizer ''db..host'' = Inl Panic
   \<and> MapSource_ReadKey no_types (MapSource JSONSourceType [] (Some CamelCaseNormalizer))
        ''db..host'' (Pointer (Loc 0 []) TString) [OCell VZero] = Some (Inl Panic)
   \<and> EnvSource_ReadKey no_types bare_world (EnvSource CamelCaseNormalizer)
        ''db..host'' (Pointer (Loc 0 []) TString) [OCell VZero] = Some (Inl Panic)"
proof -
  note t = camel_empty_segment [of _ no_types JSONSourceType "[]" "Loc 0 []" TString "[OCell VZero]"
      bare_world]
  note a = t [of "''db.host''", THEN conjunct1, THEN mp, OF camel_examples(1)]
  note b = t [of "''db..host''", THEN conjunct2, THEN conjunct1, THEN mp, OF camel_examples(2)]
  note c = t [of "''db..host''", THEN conjunct2, THEN conjunct2, THEN conjunct1, THEN mp, THEN mp,
      OF camel_examples(2) camel_examples(3)]
  note d = t [of "''db..host''", THEN conjunct2, THEN conjunct2, THEN conjunct2, THEN mp, THEN mp,
      OF camel_examples(2) camel_examples(4)]
  have s1: "Split ''db.host'' CHR ''.'' = [''db'', ''host'']" by simp
  have s2: "Split ''db..host'' CHR ''.'' = [''db'', [], ''host'']" by simp
  show ?thesis
    by (rule conjI [OF s1 conjI [OF a conjI [OF s2 conjI [OF b conjI [OF c d]]]]])
qed

subsection \<open>Mapping fields in the flat variant\<close>

text \<open>
  C6 on the code: the variable holds a JSON object, the decode of the mapping field fails
  inside \<open>readEnvPrimitive\<close> with the JSON error, the error is absorbed, and the field
  stays nil.
\<close>

theorem env_map_stays_nil:
  \<open>Getenv labels_world ''LABELS'' = ''{"a":"b"}''
   \<and> json_syntax labels_world ''{"a":"b"}'' = Some (SMap [(''a'', SString ''b'')])
   \<and> readEnvPrimitive labels_program labels_world ''{"a":"b"}'' (Loc 0 [0]) (TMap TString TString)
        [OCell VZero] = Some (Inl JSONUnmarshalError)
   \<and> EnvSource_Read labels_program labels_world (EnvSource UpperSnakeCaseNormalizer)
        (Pointer (Loc 0 []) (TStruct ''Config'')) [OCell VZero] = Some (Inr [OCell VZero])\<close>
  by (simp add: labels_program_def labels_world_def bare_world_def EnvSource_Read_def readKey_def
      readKeyLoop_Cons readKeyLoop_Nil readKeyItem_def processStructField_def readEnvKey_def
      readEnvPrimitive_def Unmarshal_iface_map_def camelToSnake_def ToUpper_def to_upper_def
      is_lower_def is_upper_def is_digit_def upper_letters_def lower_letters_def digit_chars_def)

subsection \<open>The queue of the map variant\<close>

lemma readMapItem_shape:
  assumes "readMapItem P s item st = Inr (items, st')"
  shows "items = []
    \<or> (\<exists>a et xs. item_source item = SSlice xs \<and> items = slice_items a et 0 xs)
    \<or> (\<exists>a kt vt m st0 st1. item_source item = SMap m \<and> entry_items a kt vt m st0 = (items, st1))
    \<or> (\<exists>m tgt fs. item_source item = SMap m
          \<and> field_items (map_normalizer s) m tgt 0 fs = Inr items)"
proof (cases "item_source item = SNil")
  case True
  with assms show ?thesis by (simp add: readMapItem_def)
next
  case False
  obtain h tgt targetType where u:
    "unwrap_pointers (fst st) (item_target item) (item_type item) = (h, tgt, targetType)"
    by (cases "unwrap_pointers (fst st) (item_target item) (item_type item)") auto
  show ?thesis
  proof (cases "convert targetType (item_source item)")
    case (Some v)
    with assms False u show ?thesis by (simp add: readMapItem_def Let_def)
  next
    case None
    show ?thesis
    proof (cases targetType)
      case TBool
      with assms False u None show ?thesis
        by (auto simp: readMapItem_def Let_def split: sval.splits sum.splits)
    next
      case (TSlice et)
      with assms False u None show ?thesis
        by (auto simp: readMapItem_def Let_def split: sval.splits)
    next
      case (TMap kt vt)
      with assms False u None show ?thesis
        by (fastforce simp: readMapItem_def Let_def split: sval.splits prod.splits)
    next
      case (TStruct name)
      with assms False u None show ?thesis
        by (auto simp: readMapItem_def Let_def split: sval.splits option.splits sum.splits)
    qed (use assms False u None in \<open>simp_all add: readMapItem_def Let_def\<close>)
  qed
qed


lemma paired_append: "paired xs \<Longrightarrow> paired ys \<Longrightarrow> paired (xs @ ys)"
  by (induction xs rule: paired.induct) simp_all

lemma paired_slice_items: "paired (slice_items a et i xs)"
  by (induction xs arbitrary: i) simp_all

lemma paired_entry_items: "entry_items a kt vt m st0 = (items, st1) \<Longrightarrow> paired items"
proof (induction a kt vt m st0 arbitrary: items st1 rule: entry_items.induct)
  case (1 newMap kt vt st)
  then show ?case by simp
next
  case (2 newMap kt vt k v rest h fl)
  obtain items' st2 where r:
    "entry_items newMap kt vt rest (h @ [OCell VZero, OCell VZero], fl @ [False]) = (items', st2)"
    by (cases "entry_items newMap kt vt rest (h @ [OCell VZero, OCell VZero], fl @ [False])") auto
  from "2.IH" [OF refl refl refl refl r] have "paired items'" .
  with "2.prems" r show ?case by (auto simp: Let_def)
qed

lemma paired_field_items: "field_items n m tgt i fs = Inr items \<Longrightarrow> paired items"
proof (induction fs arbitrary: i items)
  case Nil
  then show ?case by simp
next
  case (Cons f fs)
  then show ?case
    by (auto simp: Let_def split: if_splits sum.splits)
qed

lemma readMapItem_paired:
  assumes "readMapItem P s item st = Inr (items, st')"
  shows "paired items"
  using readMapItem_shape [OF assms]
  by (auto simp: paired_slice_items paired_entry_items paired_field_items)

lemma fifo_inv_turn:
  assumes "fifo_inv (item # rest)" and "paired items"
  shows "fifo_inv (rest @ items)"
proof (cases item)
  case (MapQueueItem src l t cb)
  show ?thesis
  proof (cases cb)
    case NoCallback
    with assms MapQueueItem have "paired rest" by (simp add: fifo_inv_def)
    with assms(2) show ?thesis by (simp add: fifo_inv_def paired_append)
  next
    case (KeyInitialized f)
    with assms(1) MapQueueItem have p: "paired (item # rest)" by (simp add: fifo_inv_def)
    then obtain src' l' t' m rest' where rest: "rest = MapQueueItem src' l' t' (CommitEntry f m l l') # rest'"
      and "paired rest'"
      using MapQueueItem KeyInitialized
      by (cases "(item # rest)" rule: paired.cases) auto
    with assms(2) show ?thesis by (simp add: fifo_inv_def paired_append)
  next
    case (CommitEntry f m k v)
    with assms(1) MapQueueItem have "paired rest" by (simp add: fifo_inv_def)
    with assms(2) show ?thesis by (simp add: fifo_inv_def paired_append)
  qed
qed

lemma reaches_fifo_inv:
  assumes "reaches P s c c'" and "fifo_inv (fst c)"
  shows "fifo_inv (fst c')"
  using assms
proof (induction rule: reaches.induct)
  case start
  then show ?case by simp
next
  case (turn item rest st items st')
  from turn.IH turn.prems have "fifo_inv (item # rest)" by simp
  moreover from turn.hyps(2) have "paired items" by (rule readMapItem_paired)
  ultimately show ?case by (simp add: fifo_inv_turn)
qed

lemma reaches_result:
  assumes "reaches P s c c'"
  shows "readMapLoop P s (fst c) (snd c) = readMapLoop P s (fst c') (snd c')"
  using assms
proof (induction rule: reaches.induct)
  case start
  show ?case by simp
next
  case (turn item rest st items st')
  then show ?case by (simp add: readMapLoop_Cons)
qed

subsection \<open>Mapping entries\<close>

lemma entry_items_gen:
  assumes "length h = a + 2 * n" and "length fl = f + n"
  shows "entry_items newMap kt vt m (h, fl)
     = (concat (map (entry_pair newMap kt vt a f) (enumerate n m)),
        (h @ replicate (2 * length m) (OCell VZero), fl @ replicate (length m) False))"
  using assms
proof (induction m arbitrary: h fl n)
  case Nil
  show ?case by simp
next
  case (Cons e m)
  obtain k v where e: "e = (k, v)" by (cases e)
  have ih: "entry_items newMap kt vt m (h @ [OCell VZero, OCell VZero], fl @ [False])
     = (concat (map (entry_pair newMap kt vt a f) (enumerate (Suc n) m)),
        ((h @ [OCell VZero, OCell VZero]) @ replicate (2 * length m) (OCell VZero),
         (fl @ [False]) @ replicate (length m) False))"
    using Cons.prems by (intro Cons.IH) simp_all
  have pair: "entry_pair newMap kt vt a f (n, k, v) =
     [MapQueueItem (SString k) (Loc (length h) []) kt (KeyInitialized (length fl)),
      MapQueueItem v (Loc (Suc (length h)) []) vt
        (CommitEntry (length fl) newMap (Loc (length h) []) (Loc (Suc (length h)) []))]"
    using Cons.prems by (simp add: entry_pair_def)
  show ?case
    by (simp add: e ih Let_def pair replicate_append_same)
qed

lemma entry_items_eq:
  "entry_items newMap kt vt m (h, fl)
     = (concat (map (entry_pair newMap kt vt (length h) (length fl)) (enumerate 0 m)),
        (h @ replicate (2 * length m) (OCell VZero), fl @ replicate (length m) False))"
  by (rule entry_items_gen) simp_all


lemma readMapItem_mapping:
  assumes "item_source item = SMap m"
    and "unwrap_pointers h (item_target item) (item_type item) = (h1, tgt, TMap kt vt)"
    and "convert (TMap kt vt) (SMap m) = None"
  shows "readMapItem P s item (h, fl) =
     Inr (concat (map (entry_pair (length h1) kt vt (Suc (length h1)) (length fl)) (enumerate 0 m)),
          complete (item_callback item)
            (store (h1 @ OMap [] # replicate (2 * length m) (OCell VZero)) tgt (VMap (length h1)),
             fl @ replicate (length m) False))"
  using assms by (simp add: readMapItem_def Let_def entry_items_eq)

lemmas eval_map =
  MapSource_ReadKey_def MapSource_Read_def readMapPrimitive_def readMapLoop_Cons readMapLoop_Nil
  readMapItem_def getKeyFromMap_def convert_def store_def load_def SetMapIndex_def
  truncate_rat_def processStructField_def no_types_def one_entry_source_def Let_def

subsection \<open>Termination of the map variant\<close>

lemma size_map_value: "(k, v) \<in> set m \<Longrightarrow> size v < size (SMap m)"
  by (simp add: less_Suc_eq_le size_list_estimation')

lemma size_slice_elem: "x \<in> set xs \<Longrightarrow> size x < size (SSlice xs)"
  by (simp add: less_Suc_eq_le size_list_estimation')

lemma descend_smaller:
  "parts \<noteq> [] \<Longrightarrow> descend v parts = SNil \<or> size (descend v parts) < size v"
proof (induction parts arbitrary: v)
  case Nil
  then show ?case by simp
next
  case (Cons p ps)
  show ?case
  proof (cases v)
    case (SMap m)
    show ?thesis
    proof (cases "map_of m p")
      case None
      with SMap show ?thesis by (simp add: descend_SNil)
    next
      case (Some v')
      then have "(p, v') \<in> set m" by (rule map_of_SomeD)
      then have less: "size v' < size v" unfolding SMap by (rule size_map_value)
      show ?thesis
      proof (cases "ps = []")
        case True
        with SMap Some less show ?thesis by simp
      next
        case False
        from Cons.IH [OF False, of v'] less SMap Some show ?thesis by auto
      qed
    qed
  qed simp_all
qed

lemma slice_items_sources: "it \<in> set (slice_items a et i xs) \<Longrightarrow> item_source it \<in> set xs"
  by (induction xs arbitrary: i) auto

lemma entry_items_sources:
  "entry_items a kt vt m st0 = (items, st1) \<Longrightarrow> it \<in> set items
   \<Longrightarrow> \<exists>k v. (k, v) \<in> set m \<and> (item_source it = SString k \<or> item_source it = v)"
proof (induction a kt vt m st0 arbitrary: items st1 rule: entry_items.induct)
  case (1 newMap kt vt st)
  then show ?case by simp
next
  case (2 newMap kt vt k v rest h fl)
  obtain items' st2 where r:
    "entry_items newMap kt vt rest (h @ [OCell VZero, OCell VZero], fl @ [False]) = (items', st2)"
    by (cases "entry_items newMap kt vt rest (h @ [OCell VZero, OCell VZero], fl @ [False])") auto
  note ih = "2.IH" [OF refl refl refl refl r]
  from "2.prems" r have "item_source it = SString k \<or> item_source it = v \<or> it \<in> set items'"
    by (auto simp: Let_def)
  with ih show ?case by fastforce
qed

lemma field_items_sources:
  "field_items n m tgt i fs = Inr items \<Longrightarrow> it \<in> set items
   \<Longrightarrow> size (item_source it) < size (SMap m)"
proof (induction fs arbitrary: i items)
  case Nil
  then show ?case by simp
next
  case (Cons f fs)
  show ?case
  proof (cases "processStructField f = []")
    case True
    with Cons show ?thesis by simp
  next
    case False
    with Cons.prems(1) obtain child items' where
      g: "getKeyFromMap n m (processStructField f) = Inr child"
      and r: "field_items n m tgt (Suc i) fs = Inr items'"
      and items: "items = (if child \<noteq> SNil
          then MapQueueItem child (field_addr tgt i) (FieldType f) NoCallback # items' else items')"
      by (auto simp: Let_def split: sum.splits if_splits)
    show ?thesis
    proof (cases "it \<in> set items'")
      case True
      with Cons.IH [OF r] show ?thesis by simp
    next
      case notin: False
      with Cons.prems(2) items have c: "child \<noteq> SNil" and it: "item_source it = child"
        by (auto split: if_splits)
      from g False obtain n' key' where "n = Some n'" and "Normalize n' (processStructField f) = Inr key'"
        and child: "child = descend (SMap m) (Split key' CHR ''.'')"
        by (auto simp: getKeyFromMap_def split: option.splits sum.splits)
      from descend_smaller [OF Split_not_Nil, of "SMap m" key' "CHR ''.''"] c child
      show ?thesis by (simp add: it)
    qed
  qed
qed

lemma readMapItem_smaller:
  assumes "readMapItem P s item st = Inr (items, st')" and "it \<in> set items"
  shows "size (item_source it) < size (item_source item)"
proof -
  from readMapItem_shape [OF assms(1)] assms(2)
  consider (slice) a et xs where "item_source item = SSlice xs" "items = slice_items a et 0 xs"
    | (entries) a kt vt m st0 st1 where "item_source item = SMap m"
        "entry_items a kt vt m st0 = (items, st1)"
    | (fields) m tgt fs where "item_source item = SMap m"
        "field_items (map_normalizer s) m tgt 0 fs = Inr items"
    by auto
  then show ?thesis
  proof cases
    case slice
    with assms(2) have "item_source it \<in> set xs" by (simp add: slice_items_sources)
    then show ?thesis unfolding slice(1) by (rule size_slice_elem)
  next
    case entries
    from entry_items_sources [OF entries(2) assms(2)] obtain k v where
      "(k, v) \<in> set m" and "item_source it = SString k \<or> item_source it = v" by blast
    then show ?thesis unfolding entries(1) using size_map_value [of k v m] by auto
  next
    case fields
    from field_items_sources [OF fields(2) assms(2)] show ?thesis by (simp add: fields(1))
  qed
qed

lemma queue_measure_decreases:
  assumes "\<forall>it \<in> set items. f it < f item"
  shows "mset (map f (rest @ items)) < mset (map f (item # rest))"
proof -
  have "multp (<) (mset (map f rest) + mset (map f items)) (mset (map f rest) + {#f item#})"
    using assms by (intro one_step_implies_multp) auto
  then show ?thesis by (simp add: less_multiset_def)
qed

lemma readMapLoop_terminates: "\<exists>r. readMapLoop P s queue st = Some r"
proof -
  have "wfp ((<) :: nat multiset \<Rightarrow> nat multiset \<Rightarrow> bool)"
    by (rule wfp_less_multiset) simp
  then have "\<forall>queue st. mset (map (\<lambda>it. size (item_source it)) queue) = M
      \<longrightarrow> (\<exists>r. readMapLoop P s queue st = Some r)" for M
  proof (induction M rule: wfp_induct_rule)
    case (less M)
    show ?case
    proof (intro allI impI)
      fix queue st
      assume M: "mset (map (\<lambda>it. size (item_source it)) queue) = M"
      show "\<exists>r. readMapLoop P s queue st = Some r"
      proof (cases queue)
        case Nil
        then show ?thesis by (simp add: readMapLoop_Nil)
      next
        case (Cons item rest)
        show ?thesis
        proof (cases "readMapItem P s item st")
          case (Inl e)
          with Cons show ?thesis by (simp add: readMapLoop_Cons)
        next
          case (Inr r)
          obtain items st' where r: "r = (items, st')" by (cases r)
          have "\<forall>it \<in> set items. size (item_source it) < size (item_source item)"
            using readMapItem_smaller [OF Inr [unfolded r]] by blast
          then have "mset (map (\<lambda>it. size (item_source it)) (rest @ items)) < M"
            unfolding M [symmetric] Cons by (rule queue_measure_decreases)
          from less.IH [OF this] obtain res where "readMapLoop P s (rest @ items) st' = Some res"
            by blast
          with Cons Inr r show ?thesis by (simp add: readMapLoop_Cons)
        qed
      qed
    qed
  qed
  then show ?thesis by blast
qed

subsection \<open>Termination of the flat variant\<close>

lemma readMapPrimitive_terminates: "\<exists>r. readMapPrimitive P s v tgt t h = Some r"
proof -
  obtain r where "readMapLoop P s [MapQueueItem v tgt t NoCallback] (h, []) = Some r"
    using readMapLoop_terminates by blast
  then show ?thesis by (cases r) (simp_all add: readMapPrimitive_def)
qed

lemma readEnvPrimitive_terminates: "\<exists>r. readEnvPrimitive P w value tgt t h = Some r"
proof (cases t)
  case (TMap kt vt)
  show ?thesis
    using readMapPrimitive_terminates
    by (auto simp: readEnvPrimitive_def TMap split: sum.splits)
qed (auto simp: readEnvPrimitive_def split: sum.splits option.splits)

lemma readEnvSliceItems_terminates:
  "\<exists>r. readEnvSliceItems P w et a i pieces h = Some r"
proof (induction pieces arbitrary: i h)
  case Nil
  show ?case by simp
next
  case (Cons piece pieces)
  obtain r where "readEnvPrimitive P w (TrimSpace piece) (Loc (length h) []) et (h @ [OCell VZero]) = Some r"
    using readEnvPrimitive_terminates by blast
  with Cons.IH show ?case by (simp add: Let_def)
qed

lemma readEnvSlice_terminates: "\<exists>r. readEnvSlice P w value tgt et h = Some r"
proof -
  have a: "\<exists>r. (case readEnvSliceItems P w et a i pieces h1 of None \<Rightarrow> None
      | Some h2 \<Rightarrow> Some (Inr (store h2 tgt (VSlice n)))) = Some r" for a i pieces h1 n
    using readEnvSliceItems_terminates [of P w et a i pieces h1] by auto
  show ?thesis
    using readMapPrimitive_terminates a
    by (auto simp: readEnvSlice_def Let_def split: sum.splits)
qed

lemma readKeyItem_terminates: "\<exists>r. readKeyItem P w s item h = Some r"
proof -
  obtain h1 tgt t where u: "unwrap_pointers h (env_target item) (env_type item) = (h1, tgt, t)"
    by (cases "unwrap_pointers h (env_target item) (env_type item)") auto
  have prim: "\<exists>r. (case readEnvKey w s (item_key item) of
        Inl e \<Rightarrow> Some (Inl e)
      | Inr raw \<Rightarrow>
          (case readEnvPrimitive P w raw tgt t h1 of
             None \<Rightarrow> None
           | Some (Inl err) \<Rightarrow> Some (Inr ([], h1))
           | Some (Inr h2) \<Rightarrow> Some (Inr ([], h2)))) = Some r"
  proof (cases "readEnvKey w s (item_key item)")
    case (Inl e)
    then show ?thesis by simp
  next
    case (Inr raw)
    obtain r where "readEnvPrimitive P w raw tgt t h1 = Some r"
      using readEnvPrimitive_terminates by blast
    then show ?thesis by (cases r) (simp_all add: Inr)
  qed
  have sl: "\<exists>r. (case readEnvKey w s (item_key item) of
        Inl e \<Rightarrow> Some (Inl e)
      | Inr raw \<Rightarrow>
          (case readEnvSlice P w (TrimSpace raw) tgt et h1 of
             None \<Rightarrow> None
           | Some (Inl err) \<Rightarrow> Some (Inl err)
           | Some (Inr h2) \<Rightarrow> Some (Inr ([], h2)))) = Some r" for et
  proof (cases "readEnvKey w s (item_key item)")
    case (Inl e)
    then show ?thesis by simp
  next
    case (Inr raw)
    obtain r where "readEnvSlice P w (TrimSpace raw) tgt et h1 = Some r"
      using readEnvSlice_terminates by blast
    then show ?thesis by (cases r) (simp_all add: Inr)
  qed
  show ?thesis
  proof (cases t)
    case (TSlice et)
    with sl [of et] show ?thesis by (simp add: readKeyItem_def u)
  next
    case (TStruct name)
    then show ?thesis
      by (simp add: readKeyItem_def u split: option.splits sum.splits)
  qed (use prim in \<open>auto simp add: readKeyItem_def u\<close>)
qed

lemma type_depth_strip: "type_depth rank (strip_pointers t) = type_depth rank t"
  by (induction t) simp_all

lemma env_field_items_types:
  "it \<in> set (env_field_items key tgt i fs) \<Longrightarrow> \<exists>f \<in> set fs. env_type it = FieldType f"
  by (induction fs arbitrary: i) (auto simp: Let_def split: if_splits)

lemma readKeyItem_smaller:
  assumes "readKeyItem P w s item h = Some (Inr (items, h'))" and "it \<in> set items"
    and rank: "\<And>name f. f \<in> set (fields_of P name) \<Longrightarrow> type_depth rank (FieldType f) \<le> rank name"
  shows "type_depth rank (env_type it) < type_depth rank (env_type item)"
proof -
  obtain h1 tgt t where u: "unwrap_pointers h (env_target item) (env_type item) = (h1, tgt, t)"
    by (cases "unwrap_pointers h (env_target item) (env_type item)") auto
  then have t: "t = strip_pointers (env_type item)" by (rule unwrap_pointers_type)
  from assms(1,2) u obtain name where name: "t = TStruct name"
    and items: "items = env_field_items (item_key item) tgt 0 (fields_of P name)"
    by (cases t) (auto simp: readKeyItem_def split: sum.splits option.splits)
  from env_field_items_types [OF assms(2) [unfolded items]]
  obtain f where "f \<in> set (fields_of P name)" and "env_type it = FieldType f" by blast
  with rank have "type_depth rank (env_type it) \<le> rank name" by simp
  moreover have "type_depth rank (env_type item) = Suc (rank name)"
    using type_depth_strip [of rank "env_type item"] t [symmetric] name by simp
  ultimately show ?thesis by simp
qed

lemma readKeyLoop_terminates:
  assumes rank: "\<And>name f. f \<in> set (fields_of P name) \<Longrightarrow> type_depth rank (FieldType f) \<le> rank name"
  shows "\<exists>r. readKeyLoop P w s queue h = Some r"
proof -
  have "wfp ((<) :: nat multiset \<Rightarrow> nat multiset \<Rightarrow> bool)"
    by (rule wfp_less_multiset) simp
  then have "\<forall>queue h. mset (map (\<lambda>it. type_depth rank (env_type it)) queue) = M
      \<longrightarrow> (\<exists>r. readKeyLoop P w s queue h = Some r)" for M
  proof (induction M rule: wfp_induct_rule)
    case (less M)
    show ?case
    proof (intro allI impI)
      fix queue h
      assume M: "mset (map (\<lambda>it. type_depth rank (env_type it)) queue) = M"
      show "\<exists>r. readKeyLoop P w s queue h = Some r"
      proof (cases queue)
        case Nil
        then show ?thesis by (simp add: readKeyLoop_Nil)
      next
        case (Cons item rest)
        obtain r where r: "readKeyItem P w s item h = Some r"
          using readKeyItem_terminates by blast
        show ?thesis
        proof (cases r)
          case (Inl e)
          with Cons r show ?thesis by (simp add: readKeyLoop_Cons)
        next
          case (Inr p)
          obtain items h' where p: "p = (items, h')" by (cases p)
          have "\<forall>it \<in> set items. type_depth rank (env_type it) < type_depth rank (env_type item)"
            using readKeyItem_smaller [OF r [unfolded Inr p] _ rank] by blast
          then have "mset (map (\<lambda>it. type_depth rank (env_type it)) (rest @ items)) < M"
            unfolding M [symmetric] Cons by (rule queue_measure_decreases)
          from less.IH [OF this] obtain res where "readKeyLoop P w s (rest @ items) h' = Some res"
            by blast
          with Cons r Inr p show ?thesis by (simp add: readKeyLoop_Cons)
        qed
      qed
    qed
  qed
  then show ?thesis by blast
qed




subsection \<open>Errors of custom decoders\<close>

lemma env_reaches_result:
  assumes "env_reaches P w s c c'"
  shows "readKeyLoop P w s (fst c) (snd c) = readKeyLoop P w s (fst c') (snd c')"
  using assms
proof (induction rule: env_reaches.induct)
  case env_start
  show ?case by simp
next
  case (env_turn item rest h items h')
  then show ?case by (simp add: readKeyLoop_Cons)
qed

lemma convert_struct: "convert (TStruct name) v = None"
  by (cases v) (simp_all add: convert_def)

lemma readMapItem_reader:
  assumes "item_source item = SMap m"
    and "unwrap_pointers h (item_target item) (item_type item) = (h1, tgt, TStruct name)"
    and "reader_of P name = Some reader"
  shows "readMapItem P s item (h, fl) =
     (case reader (MapSourceOf (MapSource (source_typ s) m None)) tgt h1 of
        Inl err \<Rightarrow> Inl err
      | Inr h2 \<Rightarrow> Inr ([], complete (item_callback item) (h2, fl)))"
  using assms by (simp add: readMapItem_def convert_struct)

lemma readKeyItem_reader:
  assumes "unwrap_pointers h (env_target item) (env_type item) = (h1, tgt, TStruct name)"
    and "reader_of P name = Some reader"
  shows "readKeyItem P w s item h =
     (case reader (PrefixedSource (item_key item) s) tgt h1 of
        Inl err \<Rightarrow> Some (Inl err)
      | Inr h2 \<Rightarrow> Some (Inr ([], h2)))"
  using assms by (simp add: readKeyItem_def)

lemma map_reader_error_surfaces:
  assumes "reaches P s ([MapQueueItem v0 tgt0 t0 NoCallback], (h0, [])) (item # rest, (h, fl))"
    and "item_source item = SMap m"
    and "unwrap_pointers h (item_target item) (item_type item) = (h1, tgt, TStruct name)"
    and "reader_of P name = Some reader"
    and "reader (MapSourceOf (MapSource (source_typ s) m None)) tgt h1 = Inl err"
  shows "readMapPrimitive P s v0 tgt0 t0 h0 = Some (Inl err)"
proof -
  from reaches_result [OF assms(1)]
  have "readMapLoop P s [MapQueueItem v0 tgt0 t0 NoCallback] (h0, [])
      = readMapLoop P s (item # rest) (h, fl)" by simp
  also have "\<dots> = Some (Inl err)"
    by (simp add: readMapLoop_Cons readMapItem_reader [OF assms(2,3,4)] assms(5))
  finally show ?thesis by (simp add: readMapPrimitive_def)
qed

lemma env_reader_error_surfaces:
  assumes "env_reaches P w es ([EnvQueueItem k0 tgt0 t0], h0) (item # rest, h)"
    and "unwrap_pointers h (env_target item) (env_type item) = (h1, tgt, TStruct name)"
    and "reader_of P name = Some reader"
    and "reader (PrefixedSource (item_key item) es) tgt h1 = Inl err"
  shows "readKey P w es k0 tgt0 t0 h0 = Some (Inl err)"
proof -
  from env_reaches_result [OF assms(1)]
  have "readKeyLoop P w es [EnvQueueItem k0 tgt0 t0] h0 = readKeyLoop P w es (item # rest) h"
    by simp
  also have "\<dots> = Some (Inl err)"
    by (simp add: readKeyLoop_Cons readKeyItem_reader [OF assms(2,3)] assms(4))
  finally show ?thesis by (simp add: readKey_def)
qed

lemma env_slice_error_surfaces:
  assumes "env_reaches P w es ([EnvQueueItem k0 tgt0 t0], h0) (item # rest, h)"
    and "unwrap_pointers h (env_target item) (env_type item) = (h1, tgt, TSlice et)"
    and "readEnvKey w es (item_key item) = Inr raw"
    and "readEnvSlice P w (TrimSpace raw) tgt et h1 = Some (Inl err)"
  shows "readKey P w es k0 tgt0 t0 h0 = Some (Inl err)"
proof -
  from env_reaches_result [OF assms(1)]
  have "readKeyLoop P w es [EnvQueueItem k0 tgt0 t0] h0 = readKeyLoop P w es (item # rest) h"
    by simp
  also have "\<dots> = Some (Inl err)"
    by (simp add: readKeyLoop_Cons readKeyItem_def assms(2,3,4))
  finally show ?thesis by (simp add: readKey_def)
qed

lemma readEnvSlice_json:
  assumes "value \<noteq> []" and "is_struct et \<or> is_slice et"
    and "Unmarshal_slice w value = Inr d" and "NewJSONSource w [] [] = Inr source"
  shows "readEnvSlice P w value tgt et h = readMapPrimitive P source d tgt (TSlice et) h"
  using assms by (simp add: readEnvSlice_def)

lemma nil_map_decode:
  "\<exists>h'. readMapPrimitive P source SIfaceMapNil tgt (TMap kt vt) h = Some (Inr h')"
  by (simp add: readMapPrimitive_def readMapLoop_Cons readMapLoop_Nil readMapItem_def convert_def
      Let_def)

lemma env_map_decode_never_fails:
  assumes "Unmarshal_iface_map w value = Inr d"
  shows "\<exists>h'. readMapPrimitive P source d tgt (TMap kt vt) h = Some (Inr h')"
proof -
  from assms have "d = SIfaceMapNil"
    by (auto simp: Unmarshal_iface_map_def split: option.splits sval.splits)
  then show ?thesis by (simp add: nil_map_decode)
qed

subsection \<open>Errors of one decode\<close>

lemma reader_errors_no_types: "reader_errors no_types = {}"
  by (simp add: reader_errors_def no_types_def)

lemma map_parts_lcfirst_error: "map_parts lcfirst ps = Inl e \<Longrightarrow> e = Panic"
  by (induction ps) (auto simp: lcfirst_def split: sum.splits list.splits)

lemma Normalize_error: "Normalize n key = Inl e \<Longrightarrow> e = Panic"
  by (cases n) (auto split: sum.splits dest: map_parts_lcfirst_error)

lemma reader_errorsI:
  "reader_of P name = Some reader \<Longrightarrow> reader src l h = Inl e \<Longrightarrow> e \<in> reader_errors P"
  unfolding reader_errors_def by blast

lemma Normalize_error_camel: "Normalize n key = Inl e \<Longrightarrow> n = CamelCaseNormalizer"
  by (cases n) simp_all

lemma getKeyFromMap_error: "getKeyFromMap n m key = Inl e \<Longrightarrow> e = Panic \<and> can_panic n"
  by (auto simp: getKeyFromMap_def can_panic_def split: if_splits option.splits sum.splits
      dest: Normalize_error Normalize_error_camel)

lemma field_items_error: "field_items n m tgt i fs = Inl e \<Longrightarrow> e = Panic \<and> can_panic n"
  by (induction fs arbitrary: i)
    (auto simp: Let_def split: if_splits sum.splits dest: getKeyFromMap_error)

lemma readMapItem_error:
  assumes "readMapItem P s item st = Inl e"
  shows "e \<in> reader_errors P \<or> (e = Panic \<and> can_panic (map_normalizer s))"
proof (cases "item_source item = SNil")
  case True
  with assms show ?thesis by (simp add: readMapItem_def)
next
  case False
  obtain h tgt targetType where u:
    "unwrap_pointers (fst st) (item_target item) (item_type item) = (h, tgt, targetType)"
    by (cases "unwrap_pointers (fst st) (item_target item) (item_type item)") auto
  show ?thesis
  proof (cases "convert targetType (item_source item)")
    case (Some v)
    with assms False u show ?thesis by (simp add: readMapItem_def Let_def)
  next
    case None
    show ?thesis
    proof (cases targetType)
      case TBool
      with assms False u None show ?thesis
        by (auto simp: readMapItem_def Let_def split: sval.splits sum.splits)
    next
      case (TSlice et)
      with assms False u None show ?thesis
        by (auto simp: readMapItem_def Let_def split: sval.splits)
    next
      case (TMap kt vt)
      with assms False u None show ?thesis
        by (auto simp: readMapItem_def Let_def split: sval.splits prod.splits)
    next
      case (TStruct name)
      with assms False u None show ?thesis
        by (auto simp: readMapItem_def Let_def
            split: sval.splits option.splits sum.splits dest: field_items_error
            intro: reader_errorsI)
    qed (use assms False u None in \<open>simp_all add: readMapItem_def Let_def\<close>)
  qed
qed

lemma readMapLoop_error:
  assumes "readMapLoop P s queue st = Some y"
  shows "\<forall>e. y = Inl e \<longrightarrow> e \<in> reader_errors P \<or> (e = Panic \<and> can_panic (map_normalizer s))"
proof -
  let ?Q = "\<lambda>(x :: ((program \<times> MapSource) \<times> mapQueueItem list) \<times> mstate) (y :: error + mstate).
      \<forall>e. y = Inl e \<longrightarrow> e \<in> reader_errors (fst (fst (fst x)))
        \<or> (e = Panic \<and> can_panic (map_normalizer (snd (fst (fst x)))))"
  have "?Q (((P, s), queue), st) y"
  proof (rule readMapLoop.raw_induct [where Pa = ?Q, OF _ assms])
    fix f :: "program \<Rightarrow> MapSource \<Rightarrow> mapQueueItem list \<Rightarrow> mstate \<Rightarrow> (error + mstate) option"
    fix P s queue st y
    assume ih: "\<And>P' s' q' st' y'. f P' s' q' st' = Some y' \<Longrightarrow> ?Q (((P', s'), q'), st') y'"
    assume body: "(case queue of [] \<Rightarrow> Some (Inr st)
      | item # rest \<Rightarrow>
          (case readMapItem P s item st of Inl err \<Rightarrow> Some (Inl err)
           | Inr (items, st') \<Rightarrow> f P s (rest @ items) st')) = Some y"
    show "?Q (((P, s), queue), st) y"
    proof (cases queue)
      case Nil
      with body show ?thesis by auto
    next
      case (Cons item rest)
      show ?thesis
      proof (cases "readMapItem P s item st")
        case (Inl err)
        with body Cons readMapItem_error [OF Inl] show ?thesis by auto
      next
        case (Inr r)
        obtain items st' where "r = (items, st')" by (cases r)
        with body Cons Inr have "f P s (rest @ items) st' = Some y" by simp
        from ih [OF this] show ?thesis by simp
      qed
    qed
  qed
  then show ?thesis by simp
qed

lemma readMapPrimitive_error:
  assumes "readMapPrimitive P s v tgt t h = Some (Inl e)"
  shows "e \<in> reader_errors P \<or> (e = Panic \<and> can_panic (map_normalizer s))"
proof -
  from assms have "readMapLoop P s [MapQueueItem v tgt t NoCallback] (h, []) = Some (Inl e)"
    by (auto simp: readMapPrimitive_def split: option.splits sum.splits)
  from readMapLoop_error [OF this] show ?thesis by simp
qed

lemma Unmarshal_slice_error: "Unmarshal_slice w v = Inl e \<Longrightarrow> e = JSONUnmarshalError"
  by (auto simp: Unmarshal_slice_def split: option.splits sval.splits)

lemma readEnvSlice_error:
  assumes "readEnvSlice P w value tgt et h = Some (Inl e)"
  shows "e \<in> reader_errors P \<or> e = JSONUnmarshalError \<or> NewJSONSource w [] [] = Inl e
    \<or> (e = Panic \<and> json_can_panic w)"
  using assms
  by (auto simp: readEnvSlice_def Let_def json_can_panic_def
      split: if_splits sum.splits option.splits
      dest: readMapPrimitive_error Unmarshal_slice_error)

lemma readKeyItem_error:
  assumes "readKeyItem P w s item h = Some (Inl e)"
  shows "e \<in> reader_errors P \<or> e = JSONUnmarshalError \<or> NewJSONSource w [] [] = Inl e
    \<or> (e = Panic \<and> (env_normalizer s = CamelCaseNormalizer \<or> json_can_panic w))"
proof -
  obtain h1 tgt t where u: "unwrap_pointers h (env_target item) (env_type item) = (h1, tgt, t)"
    by (cases "unwrap_pointers h (env_target item) (env_type item)") auto
  have key: "readEnvKey w s k = Inl e' \<Longrightarrow> e' = Panic \<and> env_normalizer s = CamelCaseNormalizer"
    for k e'
    by (auto simp: readEnvKey_def split: sum.splits dest: Normalize_error Normalize_error_camel)
  show ?thesis
  proof (cases t)
    case (TSlice et)
    with assms u show ?thesis
      by (auto simp: readKeyItem_def split: sum.splits option.splits
          dest: key readEnvSlice_error)
  next
    case (TStruct name)
    with assms u show ?thesis
      by (auto simp: readKeyItem_def split: sum.splits option.splits intro: reader_errorsI)
  qed (use assms u in \<open>auto simp: readKeyItem_def split: sum.splits option.splits dest: key\<close>)
qed

lemma readKeyLoop_error:
  assumes "readKeyLoop P w s queue h = Some y"
  shows "\<forall>e. y = Inl e \<longrightarrow> e \<in> reader_errors P \<or> e = JSONUnmarshalError
    \<or> NewJSONSource w [] [] = Inl e
    \<or> (e = Panic \<and> (env_normalizer s = CamelCaseNormalizer \<or> json_can_panic w))"
proof -
  let ?Q = "\<lambda>(x :: (((program \<times> world) \<times> EnvSource) \<times> envQueueItem list) \<times> heap)
      (y :: error + heap).
      \<forall>e. y = Inl e \<longrightarrow> e \<in> reader_errors (fst (fst (fst (fst x))))
        \<or> e = JSONUnmarshalError \<or> NewJSONSource (snd (fst (fst (fst x)))) [] [] = Inl e
        \<or> (e = Panic \<and> (env_normalizer (snd (fst (fst x))) = CamelCaseNormalizer
              \<or> json_can_panic (snd (fst (fst (fst x))))))"
  have "?Q ((((P, w), s), queue), h) y"
  proof (rule readKeyLoop.raw_induct [where Pa = ?Q, OF _ assms])
    fix f :: "program \<Rightarrow> world \<Rightarrow> EnvSource \<Rightarrow> envQueueItem list \<Rightarrow> heap \<Rightarrow> (error + heap) option"
    fix P w s queue h y
    assume ih: "\<And>P' w' s' q' h' y'. f P' w' s' q' h' = Some y' \<Longrightarrow> ?Q ((((P', w'), s'), q'), h') y'"
    assume body: "(case queue of [] \<Rightarrow> Some (Inr h)
      | item # rest \<Rightarrow>
          (case readKeyItem P w s item h of None \<Rightarrow> None
           | Some (Inl err) \<Rightarrow> Some (Inl err)
           | Some (Inr (items, h')) \<Rightarrow> f P w s (rest @ items) h')) = Some y"
    show "?Q ((((P, w), s), queue), h) y"
    proof (cases queue)
      case Nil
      with body show ?thesis by auto
    next
      case (Cons item rest)
      show ?thesis
      proof (cases "readKeyItem P w s item h")
        case None
        with body Cons show ?thesis by simp
      next
        case (Some r)
        show ?thesis
        proof (cases r)
          case (Inl err)
          with body Cons Some readKeyItem_error [of P w s item h err] show ?thesis by auto
        next
          case (Inr p)
          obtain items h' where "p = (items, h')" by (cases p)
          with body Cons Some Inr have "f P w s (rest @ items) h' = Some y" by simp
          from ih [OF this] show ?thesis by simp
        qed
      qed
    qed
  qed
  then show ?thesis by simp
qed

lemma MapSource_Read_error:
  assumes "MapSource_Read P s target h = Some (Inl e)"
  shows "e = TargetNotPointer \<or> e = TargetNotStruct \<or> e \<in> reader_errors P
    \<or> (e = Panic \<and> can_panic (map_normalizer s))"
  using assms
  by (cases target) (auto simp: MapSource_Read_def split: if_splits dest: readMapPrimitive_error)

lemma MapSource_ReadKey_error:
  assumes "MapSource_ReadKey P s key target h = Some (Inl e)"
  shows "e = TargetNotPointer \<or> e \<in> reader_errors P
    \<or> (e = Panic \<and> can_panic (map_normalizer s))"
  using assms
  by (cases target)
    (auto simp: MapSource_ReadKey_def split: sum.splits
      dest: readMapPrimitive_error getKeyFromMap_error)

lemma EnvSource_Read_error:
  assumes "EnvSource_Read P w es target h = Some (Inl e)"
  shows "e = TargetNotPointer \<or> e = TargetNotStruct \<or> e \<in> reader_errors P
      \<or> e = JSONUnmarshalError \<or> NewJSONSource w [] [] = Inl e
      \<or> (e = Panic \<and> (env_normalizer es = CamelCaseNormalizer \<or> json_can_panic w))"
  using assms
  by (cases target)
    (auto simp: EnvSource_Read_def readKey_def split: if_splits dest: readKeyLoop_error)

lemma EnvSource_ReadKey_error:
  assumes "EnvSource_ReadKey P w es key target h = Some (Inl e)"
  shows "e = TargetNotPointer \<or> e \<in> reader_errors P
      \<or> e = JSONUnmarshalError \<or> NewJSONSource w [] [] = Inl e
      \<or> (e = Panic \<and> (env_normalizer es = CamelCaseNormalizer \<or> json_can_panic w))"
  using assms
  by (cases target) (auto simp: EnvSource_ReadKey_def readKey_def dest: readKeyLoop_error)

subsection \<open>Unknown conventions\<close>

lemma unknown_normalizer:
  assumes "convention \<noteq> []" and "GetNormalizer convention = None"
  shows "NormalizerForSourceType w convention sourceType = Inl (UnknownConventionError convention)"
  using assms by (simp add: NormalizerForSourceType_def)

lemma known_normalizer:
  assumes "convention \<noteq> []" and "GetNormalizer convention = Some n"
  shows "NormalizerForSourceType w convention sourceType = Inr n"
  using assms by (simp add: NormalizerForSourceType_def)

lemma GetNormalizer_None:
  "GetNormalizer c = None \<longleftrightarrow> c \<noteq> ''snake'' \<and> c \<noteq> ''camel'' \<and> c \<noteq> ''upper_snake''"
  by (auto simp: GetNormalizer_def SnakeCaseConvention_def CamelCaseConvention_def
      UpperSnakeCaseConvention_def)

lemma bare_json_source:
  "NewJSONSource bare_world [] [] = Inr (MapSource JSONSourceType [] (Some CamelCaseNormalizer))"
  by (simp add: NewJSONSource_def NormalizerForSourceType_def GetConventionForSourceType_def
      stringOrDefault_def bare_world_def default_sourceConventions_def GetNormalizer_def
      SnakeCaseConvention_def CamelCaseConvention_def UpperSnakeCaseConvention_def
      EnvSourceType_def YAMLSourceType_def JSONSourceType_def)

text \<open>
  C5, as stated, fails: the request for the unregistered convention \<open>kebab\<close> is refused
  when the source is constructed, so there is no source to read from, and no \<open>Read\<close> or
  \<open>ReadKey\<close> of either variant returns the unknown-convention error (here with no custom
  decoders and the default conventions).
\<close>

theorem read_never_unknown_convention:
  "NewJSONSource bare_world [] ''kebab'' = Inl (UnknownConventionError ''kebab'')
   \<and> NewEnvSource bare_world ''kebab'' = Inl (UnknownConventionError ''kebab'')
   \<and> (\<forall>s target h c.
        MapSource_Read no_types s target h \<noteq> Some (Inl (UnknownConventionError c)))
   \<and> (\<forall>s key target h c.
        MapSource_ReadKey no_types s key target h \<noteq> Some (Inl (UnknownConventionError c)))
   \<and> (\<forall>es target h c.
        EnvSource_Read no_types bare_world es target h \<noteq> Some (Inl (UnknownConventionError c)))
   \<and> (\<forall>es key target h c.
        EnvSource_ReadKey no_types bare_world es key target h
          \<noteq> Some (Inl (UnknownConventionError c)))"
proof -
  have k: "''kebab'' \<noteq> []" "GetNormalizer ''kebab'' = None"
    by (simp_all add: GetNormalizer_None)
  have a: "NewJSONSource bare_world [] ''kebab'' = Inl (UnknownConventionError ''kebab'')"
    by (simp add: NewJSONSource_def unknown_normalizer [OF k])
  have b: "NewEnvSource bare_world ''kebab'' = Inl (UnknownConventionError ''kebab'')"
    by (simp add: NewEnvSource_def unknown_normalizer [OF k])
  have c: "MapSource_Read no_types s target h \<noteq> Some (Inl (UnknownConventionError c))"
    for s target h c
    using MapSource_Read_error [of no_types s target h "UnknownConventionError c"]
    by (auto simp: reader_errors_no_types)
  have d: "MapSource_ReadKey no_types s key target h \<noteq> Some (Inl (UnknownConventionError c))"
    for s key target h c
    using MapSource_ReadKey_error [of no_types s key target h "UnknownConventionError c"]
    by (auto simp: reader_errors_no_types)
  have e: "EnvSource_Read no_types bare_world es target h
      \<noteq> Some (Inl (UnknownConventionError c))" for es target h c
    using EnvSource_Read_error [of no_types bare_world es target h "UnknownConventionError c"]
    by (auto simp: reader_errors_no_types bare_json_source)
  have f: "EnvSource_ReadKey no_types bare_world es key target h
      \<noteq> Some (Inl (UnknownConventionError c))" for es key target h c
    using EnvSource_ReadKey_error [of no_types bare_world es key target h "UnknownConventionError c"]
    by (auto simp: reader_errors_no_types bare_json_source)
  show ?thesis
    using a b c d e f by blast
qed

text \<open>
  C5, amended. A non-empty convention name is registered exactly when it is \<open>snake\<close>,
  \<open>camel\<close> or \<open>upper_snake\<close>. When an explicitly requested name is not registered, the
  resolver and the construction of each of the three kinds of source fail with the
  unknown-convention error carrying that name, so no source exists on which \<open>Read\<close> or
  \<open>ReadKey\<close> could be called; when it is registered, construction succeeds with its
  normalizer. \<open>Read\<close> and \<open>ReadKey\<close> take no convention name: the map variant returns an
  unknown-convention error only if a custom decoder produced it, and the flat variant
  only then or when the JSON source it builds for itself, with the configured default
  convention, is refused.
\<close>

theorem unknown_convention:
  "(GetNormalizer convention = None
      \<longleftrightarrow> convention \<noteq> ''snake'' \<and> convention \<noteq> ''camel'' \<and> convention \<noteq> ''upper_snake'')
   \<and> (convention \<noteq> [] \<longrightarrow> GetNormalizer convention = None \<longrightarrow>
        NormalizerForSourceType w convention sourceType = Inl (UnknownConventionError convention)
        \<and> NewEnvSource w convention = Inl (UnknownConventionError convention)
        \<and> NewYAMLSource w d convention = Inl (UnknownConventionError convention)
        \<and> NewJSONSource w d convention = Inl (UnknownConventionError convention))
   \<and> (convention \<noteq> [] \<longrightarrow> GetNormalizer convention = Some n \<longrightarrow>
        NewEnvSource w convention = Inr (EnvSource n)
        \<and> NewYAMLSource w d convention = Inr (MapSource YAMLSourceType d (Some n))
        \<and> NewJSONSource w d convention = Inr (MapSource JSONSourceType d (Some n)))
   \<and> (MapSource_Read P s target h = Some (Inl (UnknownConventionError c)) \<longrightarrow>
        UnknownConventionError c \<in> reader_errors P)
   \<and> (MapSource_ReadKey P s key target h = Some (Inl (UnknownConventionError c)) \<longrightarrow>
        UnknownConventionError c \<in> reader_errors P)
   \<and> (EnvSource_Read P w es target h = Some (Inl (UnknownConventionError c)) \<longrightarrow>
        UnknownConventionError c \<in> reader_errors P
        \<or> NewJSONSource w [] [] = Inl (UnknownConventionError c))
   \<and> (EnvSource_ReadKey P w es key target h = Some (Inl (UnknownConventionError c)) \<longrightarrow>
        UnknownConventionError c \<in> reader_errors P
        \<or> NewJSONSource w [] [] = Inl (UnknownConventionError c))"
proof (intro conjI impI)
  show "GetNormalizer convention = None
      \<longleftrightarrow> convention \<noteq> ''snake'' \<and> convention \<noteq> ''camel'' \<and> convention \<noteq> ''upper_snake''"
    by (rule GetNormalizer_None)
next
  assume a: "convention \<noteq> []" "GetNormalizer convention = None"
  show "NormalizerForSourceType w convention sourceType = Inl (UnknownConventionError convention)"
    by (rule unknown_normalizer [OF a])
  show "NewEnvSource w convention = Inl (UnknownConventionError convention)"
    by (simp add: NewEnvSource_def unknown_normalizer [OF a])
  show "NewYAMLSource w d convention = Inl (UnknownConventionError convention)"
    by (simp add: NewYAMLSource_def unknown_normalizer [OF a])
  show "NewJSONSource w d convention = Inl (UnknownConventionError convention)"
    by (simp add: NewJSONSource_def unknown_normalizer [OF a])
next
  assume a: "convention \<noteq> []" "GetNormalizer convention = Some n"
  show "NewEnvSource w convention = Inr (EnvSource n)"
    by (simp add: NewEnvSource_def known_normalizer [OF a])
  show "NewYAMLSource w d convention = Inr (MapSource YAMLSourceType d (Some n))"
    by (simp add: NewYAMLSource_def known_normalizer [OF a])
  show "NewJSONSource w d convention = Inr (MapSource JSONSourceType d (Some n))"
    by (simp add: NewJSONSource_def known_normalizer [OF a])
next
  assume "MapSource_Read P s target h = Some (Inl (UnknownConventionError c))"
  from MapSource_Read_error [OF this] show "UnknownConventionError c \<in> reader_errors P" by simp
next
  assume "MapSource_ReadKey P s key target h = Some (Inl (UnknownConventionError c))"
  from MapSource_ReadKey_error [OF this] show "UnknownConventionError c \<in> reader_errors P" by simp
next
  assume "EnvSource_Read P w es target h = Some (Inl (UnknownConventionError c))"
  from EnvSource_Read_error [OF this]
  show "UnknownConventionError c \<in> reader_errors P
        \<or> NewJSONSource w [] [] = Inl (UnknownConventionError c)" by simp
next
  assume "EnvSource_ReadKey P w es key target h = Some (Inl (UnknownConventionError c))"
  from EnvSource_ReadKey_error [OF this]
  show "UnknownConventionError c \<in> reader_errors P
        \<or> NewJSONSource w [] [] = Inl (UnknownConventionError c)" by simp
qed

lemma kebab_world_read:
  "EnvSource_Read oauth_program kebab_world (EnvSource UpperSnakeCaseNormalizer)
     (Pointer (Loc 0 []) (TStruct ''MyConfig'')) [OCell VZero]
     = Some (Inl (UnknownConventionError ''kebab''))"
  by (simp add: oauth_program_def kebab_world_def bare_world_def EnvSource_Read_def readKey_def
      readKeyLoop_Cons readKeyLoop_Nil readKeyItem_def processStructField_def readEnvKey_def
      readEnvSlice_def Unmarshal_slice_def TrimSpace_def is_space_def
      NewJSONSource_def NormalizerForSourceType_def GetConventionForSourceType_def
      stringOrDefault_def default_sourceConventions_def GetNormalizer_def
      SnakeCaseConvention_def CamelCaseConvention_def UpperSnakeCaseConvention_def
      EnvSourceType_def YAMLSourceType_def JSONSourceType_def
      camelToSnake_def ToUpper_def to_upper_def
      is_lower_def is_upper_def is_digit_def upper_letters_def lower_letters_def digit_chars_def)

lemma convention_examples:
  "''kebab'' \<noteq> []" "GetNormalizer ''kebab'' = None"
  "''camel'' \<noteq> []" "GetNormalizer ''camel'' = Some CamelCaseNormalizer"
  by (simp_all add: GetNormalizer_def SnakeCaseConvention_def CamelCaseConvention_def
      UpperSnakeCaseConvention_def)

theorem unknown_convention_witness:
  "GetNormalizer ''kebab'' = None
   \<and> NewEnvSource bare_world ''kebab'' = Inl (UnknownConventionError ''kebab'')
   \<and> NewYAMLSource bare_world [] ''kebab'' = Inl (UnknownConventionError ''kebab'')
   \<and> NewJSONSource bare_world [] ''kebab'' = Inl (UnknownConventionError ''kebab'')
   \<and> GetNormalizer ''camel'' = Some CamelCaseNormalizer
   \<and> NewJSONSource bare_world [] ''camel''
        = Inr (MapSource JSONSourceType [] (Some CamelCaseNormalizer))
   \<and> EnvSource_Read oauth_program kebab_world (EnvSource UpperSnakeCaseNormalizer)
        (Pointer (Loc 0 []) (TStruct ''MyConfig'')) [OCell VZero]
       = Some (Inl (UnknownConventionError ''kebab''))
   \<and> (UnknownConventionError ''kebab'' \<in> reader_errors oauth_program
        \<or> NewJSONSource kebab_world [] [] = Inl (UnknownConventionError ''kebab''))"
proof -
  note k = unknown_convention [where convention = "''kebab''" and w = bare_world and d = "[]",
      THEN conjunct2, THEN conjunct1, THEN mp, THEN mp, OF convention_examples(1,2)]
  note c = unknown_convention [where convention = "''camel''" and w = bare_world and d = "[]"
      and n = CamelCaseNormalizer,
      THEN conjunct2, THEN conjunct2, THEN conjunct1, THEN mp, THEN mp,
      OF convention_examples(3,4)]
  note r = unknown_convention [where P = oauth_program and w = kebab_world
      and es = "EnvSource UpperSnakeCaseNormalizer"
      and target = "Pointer (Loc 0 []) (TStruct ''MyConfig'')" and h = "[OCell VZero]"
      and c = "''kebab''",
      THEN conjunct2, THEN conjunct2, THEN conjunct2, THEN conjunct2, THEN conjunct2,
      THEN conjunct1, THEN mp, OF kebab_world_read]
  show ?thesis
    by (rule conjI [OF convention_examples(2) conjI [OF k [THEN conjunct2, THEN conjunct1]
        conjI [OF k [THEN conjunct2, THEN conjunct2, THEN conjunct1]
        conjI [OF k [THEN conjunct2, THEN conjunct2, THEN conjunct2]
        conjI [OF convention_examples(4)
        conjI [OF c [THEN conjunct2, THEN conjunct2]
        conjI [OF kebab_world_read r]]]]]]])
qed

subsection \<open>Absent values\<close>

lemma snake_returns:
  "n \<noteq> CamelCaseNormalizer \<Longrightarrow> \<exists>key'. Normalize n key = Inr key'"
  by (cases n) simp_all

text \<open>
  C8, as stated, fails before the lookup begins: on a camel source the key \<open>db..host\<close> has
  an empty segment, and although the value under \<open>db\<close> is not a mapping, \<open>ReadKey\<close> panics
  in the normalizer instead of returning success; on a source without a normalizer (the
  one handed to a custom decoder) every non-empty key does.
\<close>

theorem absent_lookup_panics:
  "\<not> is_mapping (descend (SMap [(''db'', SFloat 1)]) [''db''])
   \<and> MapSource_ReadKey no_types
        (MapSource JSONSourceType [(''db'', SFloat 1)] (Some CamelCaseNormalizer)) ''db..host''
        (Pointer (Loc 0 []) TString) [OCell VZero] = Some (Inl Panic)
   \<and> MapSource_ReadKey no_types
        (MapSource JSONSourceType [(''db'', SFloat 1)] None) ''db.host''
        (Pointer (Loc 0 []) TString) [OCell VZero] = Some (Inl Panic)"
  by (simp add: MapSource_ReadKey_def getKeyFromMap_def lcfirst_def)

text \<open>
  C8, amended. For every tree and every non-empty key that the normalizer of the source
  turns into a path (every key under the two snake normalizers, every key without an
  empty segment under the camel normalizer), the lookup answers nil as soon as the value
  reached before some segment is not a mapping; a nil value is not an error: \<open>ReadKey\<close>
  succeeds and leaves the memory, and so the destination, as it was. On a camel source a
  non-empty key with an empty segment, and on a source without a normalizer every
  non-empty key, makes \<open>ReadKey\<close> panic before the lookup.
\<close>

theorem absent_lookup:
  "(key \<noteq> [] \<longrightarrow> Normalize n key = Inr key' \<longrightarrow>
      Split key' CHR ''.'' = before @ part # after \<longrightarrow>
      \<not> is_mapping (descend (SMap tree) before) \<longrightarrow>
        getKeyFromMap (Some n) tree key = Inr SNil
        \<and> MapSource_ReadKey P (MapSource ty tree (Some n)) key (Pointer tgt t) h = Some (Inr h))
   \<and> readMapPrimitive P s SNil tgt t h = Some (Inr h)
   \<and> (n \<noteq> CamelCaseNormalizer \<longrightarrow> (\<exists>key'. Normalize n key = Inr key'))
   \<and> ((\<forall>p \<in> set (Split key CHR ''.''). p \<noteq> []) \<longrightarrow>
        (\<exists>key'. Normalize CamelCaseNormalizer key = Inr key'))
   \<and> (key \<noteq> [] \<longrightarrow> [] \<in> set (Split key CHR ''.'') \<longrightarrow>
        MapSource_ReadKey P (MapSource ty tree (Some CamelCaseNormalizer)) key (Pointer tgt t) h
          = Some (Inl Panic))
   \<and> (key \<noteq> [] \<longrightarrow>
        MapSource_ReadKey P (MapSource ty tree None) key (Pointer tgt t) h = Some (Inl Panic))"
proof (intro conjI impI)
  assume a: "key \<noteq> []" "Normalize n key = Inr key'"
    "Split key' CHR ''.'' = before @ part # after"
    "\<not> is_mapping (descend (SMap tree) before)"
  have "descend (SMap tree) (before @ part # after) = SNil"
    using a(4) by (simp add: descend_append descend_not_mapping)
  with a(1,2,3) show look: "getKeyFromMap (Some n) tree key = Inr SNil"
    by (simp add: getKeyFromMap_def)
  then show "MapSource_ReadKey P (MapSource ty tree (Some n)) key (Pointer tgt t) h = Some (Inr h)"
    by (simp add: MapSource_ReadKey_def readMapPrimitive_SNil)
next
  show "readMapPrimitive P s SNil tgt t h = Some (Inr h)" by (rule readMapPrimitive_SNil)
next
  assume "n \<noteq> CamelCaseNormalizer"
  then show "\<exists>key'. Normalize n key = Inr key'" by (rule snake_returns)
next
  assume "\<forall>p \<in> set (Split key CHR ''.''). p \<noteq> []"
  then show "\<exists>key'. Normalize CamelCaseNormalizer key = Inr key'" by (rule camel_returns)
next
  assume "key \<noteq> []" and a: "[] \<in> set (Split key CHR ''.'')"
  then show "MapSource_ReadKey P (MapSource ty tree (Some CamelCaseNormalizer)) key
      (Pointer tgt t) h = Some (Inl Panic)"
    using camel_panics [OF a] by (simp add: MapSource_ReadKey_def getKeyFromMap_def)
next
  assume "key \<noteq> []"
  then show "MapSource_ReadKey P (MapSource ty tree None) key (Pointer tgt t) h
      = Some (Inl Panic)"
    by (simp add: MapSource_ReadKey_def getKeyFromMap_def)
qed

lemma absent_lookup_example:
  "''db.host'' \<noteq> []"
  "Normalize CamelCaseNormalizer ''db.host'' = Inr ''db.host''"
  "Split ''db.host'' CHR ''.'' = [''db''] @ ''host'' # []"
  "\<not> is_mapping (descend (SMap [(''db'', SFloat 1)]) [''db''])"
  "Normalize UpperSnakeCaseNormalizer ''db.host'' = Inr ''DB_HOST''"
  "Split ''DB_HOST'' CHR ''.'' = [] @ ''DB_HOST'' # []"
  "\<not> is_mapping (descend (SMap [(''db'', SMap [])]) [''db'', ''port''])"
  "Split ''db.port.name'' CHR ''.'' = [''db'', ''port''] @ ''name'' # []"
  "Normalize CamelCaseNormalizer ''db.port.name'' = Inr ''db.port.name''"
  "''db.port.name'' \<noteq> []"
  by (simp_all add: lcfirst_def to_lower_def upper_letters_def lower_letters_def
      camelToSnake_def ToUpper_def to_upper_def is_lower_def is_upper_def is_digit_def
      digit_chars_def)

theorem absent_lookup_witness:
  "Normalize CamelCaseNormalizer ''db.host'' = Inr ''db.host''
   \<and> \<not> is_mapping (descend (SMap [(''db'', SFloat 1)]) [''db''])
   \<and> getKeyFromMap (Some CamelCaseNormalizer) [(''db'', SFloat 1)] ''db.host'' = Inr SNil
   \<and> MapSource_ReadKey no_types
        (MapSource JSONSourceType [(''db'', SFloat 1)] (Some CamelCaseNormalizer)) ''db.host''
        (Pointer (Loc 0 []) TString) [OCell VZero] = Some (Inr [OCell VZero])
   \<and> \<not> is_mapping (descend (SMap [(''db'', SMap [])]) [''db'', ''port''])
   \<and> MapSource_ReadKey no_types
        (MapSource JSONSourceType [(''db'', SMap [])] (Some CamelCaseNormalizer)) ''db.port.name''
        (Pointer (Loc 0 []) TString) [OCell (VString ''kept'')]
       = Some (Inr [OCell (VString ''kept'')])"
proof -
  note a = absent_lookup [where P = no_types and ty = JSONSourceType and tgt = "Loc 0 []"
      and t = TString and n = CamelCaseNormalizer and h = "[OCell VZero]",
      THEN conjunct1, THEN mp, THEN mp, THEN mp, THEN mp, OF absent_lookup_example(1,2,3,4)]
  note b = absent_lookup [where P = no_types and ty = JSONSourceType and tgt = "Loc 0 []"
      and t = TString and n = CamelCaseNormalizer and h = "[OCell (VString ''kept'')]",
      THEN conjunct1, THEN mp, THEN mp, THEN mp, THEN mp, OF absent_lookup_example(10,9,8,7)]
  show ?thesis
    by (rule conjI [OF absent_lookup_example(2) conjI [OF absent_lookup_example(4)
        conjI [OF a [THEN conjunct1] conjI [OF a [THEN conjunct2]
        conjI [OF absent_lookup_example(7) b [THEN conjunct2]]]]]])
qed

subsection \<open>Errors of custom decoders\<close>

lemma readMapItem_record_with_reader:
  assumes "unwrap_pointers h (item_target item) (item_type item) = (h1, tgt, TStruct name)"
    and "reader_of P name = Some reader"
  shows "readMapItem P s item (h, fl) =
     (case item_source item of
        SNil \<Rightarrow> Inr ([], (h, fl))
      | SMap m \<Rightarrow>
          (case reader (MapSourceOf (MapSource (source_typ s) m None)) tgt h1 of
             Inl err \<Rightarrow> Inl err
           | Inr h2 \<Rightarrow> Inr ([], complete (item_callback item) (h2, fl)))
      | _ \<Rightarrow> Inr ([], (h1, fl)))"
  using assms by (cases "item_source item") (simp_all add: readMapItem_def convert_struct)

lemma nil_map_decode_value:
  "readMapPrimitive P source SIfaceMapNil tgt (TMap kt vt) h =
     Some (Inr (if kt = TIface \<and> vt = TIface then store h tgt (VDyn SIfaceMapNil)
                else store (h @ [OMap []]) tgt (VMap (length h))))"
  by (simp add: readMapPrimitive_def readMapLoop_Cons readMapLoop_Nil readMapItem_def convert_def
      Let_def)

lemma readEnvPrimitive_no_decoder:
  "readEnvPrimitive P w raw tgt t h = readEnvPrimitive P' w raw tgt t h"
proof (cases t)
  case (TMap kt vt)
  have d: "Unmarshal_iface_map w raw = Inr d \<Longrightarrow> d = SIfaceMapNil" for d
    by (auto simp: Unmarshal_iface_map_def split: option.splits sval.splits)
  show ?thesis
    unfolding TMap readEnvPrimitive_def
    by (auto split: sum.splits dest!: d simp: nil_map_decode_value)
qed (simp_all add: readEnvPrimitive_def)

lemma readEnvSliceItems_no_decoder:
  "readEnvSliceItems P w et a i pieces h = readEnvSliceItems P' w et a i pieces h"
proof (induction pieces arbitrary: i h)
  case Nil
  show ?case by simp
next
  case (Cons piece pieces)
  show ?case
    by (simp add: Let_def Cons.IH
        readEnvPrimitive_no_decoder [of P w "TrimSpace piece" _ et _ P']
        split: option.splits)
qed

lemma readEnvSlice_no_decoder:
  assumes "\<not> is_struct et" and "\<not> is_slice et"
  shows "readEnvSlice P w value tgt et h = readEnvSlice P' w value tgt et h"
  using assms
  by (simp add: readEnvSlice_def Let_def readEnvSliceItems_no_decoder [of P w et _ _ _ _ P'])

lemma readKeyItem_no_decoder:
  assumes "unwrap_pointers h (env_target item) (env_type item) = (h1, tgt, t)"
    and "\<not> is_struct t" and "\<not> is_slice t"
  shows "readKeyItem P w es item h = readKeyItem P' w es item h"
  using assms
  by (cases t)
    (simp_all add: readKeyItem_def readEnvPrimitive_no_decoder [of P w _ tgt _ h1 P']
      split: sum.splits)

text \<open>
  C2, as stated, fails in the map variant: the custom decoder of a record is invoked only
  when the source value for the record is a mapping. Here the decoder of \<open>Custom\<close> always
  fails, yet \<open>ReadKey\<close> into a \<open>Custom\<close> succeeds without touching the memory when the
  value under the key is a number or is absent; the flat variant, which looks at no value
  first, invokes the decoder and returns its error.
\<close>

theorem custom_decoder_not_invoked:
  "MapSource_ReadKey failing_program
      (MapSource JSONSourceType [(''custom'', SFloat 1)] (Some CamelCaseNormalizer)) ''custom''
      (Pointer (Loc 0 []) (TStruct ''Custom'')) [OCell VZero] = Some (Inr [OCell VZero])
   \<and> MapSource_ReadKey failing_program
      (MapSource JSONSourceType [] (Some CamelCaseNormalizer)) ''custom''
      (Pointer (Loc 0 []) (TStruct ''Custom'')) [OCell VZero] = Some (Inr [OCell VZero])
   \<and> MapSource_ReadKey failing_program
      (MapSource JSONSourceType [(''custom'', SMap [])] (Some CamelCaseNormalizer)) ''custom''
      (Pointer (Loc 0 []) (TStruct ''Custom'')) [OCell VZero]
       = Some (Inl (ReaderError ''refused''))
   \<and> EnvSource_ReadKey failing_program bare_world (EnvSource CamelCaseNormalizer) ''custom''
      (Pointer (Loc 0 []) (TStruct ''Custom'')) [OCell VZero]
       = Some (Inl (ReaderError ''refused''))"
  by (simp add: MapSource_ReadKey_def getKeyFromMap_def lcfirst_def to_lower_def
      upper_letters_def lower_letters_def readMapPrimitive_def readMapLoop_Cons readMapLoop_Nil
      readMapItem_def convert_def failing_program_def EnvSource_ReadKey_def readKey_def
      readKeyLoop_Cons readKeyItem_def)

text \<open>
  C2, amended. For records not reached through an embedded field of unexported name: in
  the flat variant every turn on a record with a custom decoder is the call of that
  decoder. In the map variant the turn on such a record is the call of the
  decoder when the source value is a mapping, and does nothing but the pointer allocation
  when the value is a scalar or a sequence (nothing at all when it is absent). Where the
  decoder is called, no field items are appended, and when it returns an error, that very
  error is the result of the whole decode, whatever else is queued; an error raised in the
  decode nested in the JSON-array path of the flat variant is handed on unchanged. The
  turns of the flat variant that discard an error (primitive and mapping destinations,
  and the elements of a comma-separated sequence) do not depend on the custom decoders of
  the program, so none of their errors is absorbed. \<open>Read\<close> and \<open>ReadKey\<close> return what the
  decode returns.
\<close>

theorem custom_decoder_errors_surface:
  "(unwrap_pointers h (item_target item) (item_type item) = (h1, tgt, TStruct name) \<longrightarrow>
    reader_of P name = Some reader \<longrightarrow>
      readMapItem P s item (h, fl) =
        (case item_source item of
           SNil \<Rightarrow> Inr ([], (h, fl))
         | SMap m \<Rightarrow>
             (case reader (MapSourceOf (MapSource (source_typ s) m None)) tgt h1 of
                Inl err \<Rightarrow> Inl err
              | Inr h2 \<Rightarrow> Inr ([], complete (item_callback item) (h2, fl)))
         | _ \<Rightarrow> Inr ([], (h1, fl))))
   \<and> (reaches P s ([MapQueueItem v0 tgt0 t0 NoCallback], (h0, [])) (item # rest, (h, fl)) \<longrightarrow>
      item_source item = SMap m \<longrightarrow>
      unwrap_pointers h (item_target item) (item_type item) = (h1, tgt, TStruct name) \<longrightarrow>
      reader_of P name = Some reader \<longrightarrow>
      reader (MapSourceOf (MapSource (source_typ s) m None)) tgt h1 = Inl err \<longrightarrow>
        readMapPrimitive P s v0 tgt0 t0 h0 = Some (Inl err))
   \<and> (unwrap_pointers eh (env_target eitem) (env_type eitem) = (eh1, etgt, TStruct name) \<longrightarrow>
      reader_of P name = Some reader \<longrightarrow>
        readKeyItem P w es eitem eh =
          (case reader (PrefixedSource (item_key eitem) es) etgt eh1 of
             Inl err \<Rightarrow> Some (Inl err)
           | Inr h2 \<Rightarrow> Some (Inr ([], h2))))
   \<and> (env_reaches P w es ([EnvQueueItem k0 etgt0 et0], eh0) (eitem # erest, eh) \<longrightarrow>
      unwrap_pointers eh (env_target eitem) (env_type eitem) = (eh1, etgt, TStruct name) \<longrightarrow>
      reader_of P name = Some reader \<longrightarrow>
      reader (PrefixedSource (item_key eitem) es) etgt eh1 = Inl err \<longrightarrow>
        readKey P w es k0 etgt0 et0 eh0 = Some (Inl err))
   \<and> (env_reaches P w es ([EnvQueueItem k0 etgt0 et0], eh0) (eitem # erest, eh) \<longrightarrow>
      unwrap_pointers eh (env_target eitem) (env_type eitem) = (eh1, etgt, TSlice elt) \<longrightarrow>
      readEnvKey w es (item_key eitem) = Inr raw \<longrightarrow>
      TrimSpace raw \<noteq> [] \<longrightarrow> (is_struct elt \<or> is_slice elt) \<longrightarrow>
      Unmarshal_slice w (TrimSpace raw) = Inr d \<longrightarrow> NewJSONSource w [] [] = Inr source \<longrightarrow>
      readMapPrimitive P source d etgt (TSlice elt) eh1 = Some (Inl err) \<longrightarrow>
        readKey P w es k0 etgt0 et0 eh0 = Some (Inl err))
   \<and> readEnvPrimitive P w value ptgt pt ph = readEnvPrimitive P' w value ptgt pt ph
   \<and> (unwrap_pointers eh (env_target eitem) (env_type eitem) = (eh1, etgt, pt) \<longrightarrow>
      \<not> is_struct pt \<longrightarrow> \<not> is_slice pt \<longrightarrow>
        readKeyItem P w es eitem eh = readKeyItem P' w es eitem eh)
   \<and> (\<not> is_struct pt \<longrightarrow> \<not> is_slice pt \<longrightarrow>
        readEnvSlice P w value ptgt pt ph = readEnvSlice P' w value ptgt pt ph)
   \<and> MapSource_Read P s (Pointer tgt0 t0) h0 =
       (if is_struct t0 then readMapPrimitive P s (SMap (data s)) tgt0 t0 h0
        else Some (Inl TargetNotStruct))
   \<and> MapSource_ReadKey P s key (Pointer tgt0 t0) h0 =
       (case getKeyFromMap (map_normalizer s) (data s) key of
          Inl e \<Rightarrow> Some (Inl e)
        | Inr val \<Rightarrow> readMapPrimitive P s val tgt0 t0 h0)
   \<and> EnvSource_Read P w es (Pointer etgt0 et0) eh0 =
       (if is_struct et0 then readKey P w es [] etgt0 et0 eh0 else Some (Inl TargetNotStruct))
   \<and> EnvSource_ReadKey P w es key (Pointer etgt0 et0) eh0 = readKey P w es key etgt0 et0 eh0"
proof (intro conjI impI)
  assume "unwrap_pointers h (item_target item) (item_type item) = (h1, tgt, TStruct name)"
    "reader_of P name = Some reader"
  then show "readMapItem P s item (h, fl) =
        (case item_source item of
           SNil \<Rightarrow> Inr ([], (h, fl))
         | SMap m \<Rightarrow>
             (case reader (MapSourceOf (MapSource (source_typ s) m None)) tgt h1 of
                Inl err \<Rightarrow> Inl err
              | Inr h2 \<Rightarrow> Inr ([], complete (item_callback item) (h2, fl)))
         | _ \<Rightarrow> Inr ([], (h1, fl)))"
    by (rule readMapItem_record_with_reader)
next
  assume "reaches P s ([MapQueueItem v0 tgt0 t0 NoCallback], (h0, [])) (item # rest, (h, fl))"
    "item_source item = SMap m"
    "unwrap_pointers h (item_target item) (item_type item) = (h1, tgt, TStruct name)"
    "reader_of P name = Some reader"
    "reader (MapSourceOf (MapSource (source_typ s) m None)) tgt h1 = Inl err"
  then show "readMapPrimitive P s v0 tgt0 t0 h0 = Some (Inl err)"
    by (rule map_reader_error_surfaces)
next
  assume "unwrap_pointers eh (env_target eitem) (env_type eitem) = (eh1, etgt, TStruct name)"
    "reader_of P name = Some reader"
  then show "readKeyItem P w es eitem eh =
          (case reader (PrefixedSource (item_key eitem) es) etgt eh1 of
             Inl err \<Rightarrow> Some (Inl err)
           | Inr h2 \<Rightarrow> Some (Inr ([], h2)))"
    by (rule readKeyItem_reader)
next
  assume "env_reaches P w es ([EnvQueueItem k0 etgt0 et0], eh0) (eitem # erest, eh)"
    "unwrap_pointers eh (env_target eitem) (env_type eitem) = (eh1, etgt, TStruct name)"
    "reader_of P name = Some reader"
    "reader (PrefixedSource (item_key eitem) es) etgt eh1 = Inl err"
  then show "readKey P w es k0 etgt0 et0 eh0 = Some (Inl err)"
    by (rule env_reader_error_surfaces)
next
  assume a: "env_reaches P w es ([EnvQueueItem k0 etgt0 et0], eh0) (eitem # erest, eh)"
    "unwrap_pointers eh (env_target eitem) (env_type eitem) = (eh1, etgt, TSlice elt)"
    "readEnvKey w es (item_key eitem) = Inr raw"
    and b: "TrimSpace raw \<noteq> []" "is_struct elt \<or> is_slice elt"
    "Unmarshal_slice w (TrimSpace raw) = Inr d" "NewJSONSource w [] [] = Inr source"
    and c: "readMapPrimitive P source d etgt (TSlice elt) eh1 = Some (Inl err)"
  from readEnvSlice_json [OF b] c
  have "readEnvSlice P w (TrimSpace raw) etgt elt eh1 = Some (Inl err)" by simp
  with a show "readKey P w es k0 etgt0 et0 eh0 = Some (Inl err)"
    by (rule env_slice_error_surfaces)
next
  show "readEnvPrimitive P w value ptgt pt ph = readEnvPrimitive P' w value ptgt pt ph"
    by (rule readEnvPrimitive_no_decoder)
next
  assume "unwrap_pointers eh (env_target eitem) (env_type eitem) = (eh1, etgt, pt)"
    "\<not> is_struct pt" "\<not> is_slice pt"
  then show "readKeyItem P w es eitem eh = readKeyItem P' w es eitem eh"
    by (rule readKeyItem_no_decoder)
next
  assume "\<not> is_struct pt" "\<not> is_slice pt"
  then show "readEnvSlice P w value ptgt pt ph = readEnvSlice P' w value ptgt pt ph"
    by (rule readEnvSlice_no_decoder)
qed (simp_all add: MapSource_Read_def MapSource_ReadKey_def EnvSource_Read_def
    EnvSource_ReadKey_def)

lemmas eval_keys =
  lcfirst_def to_lower_def camelToSnake_def ToUpper_def to_upper_def is_lower_def is_upper_def
  is_digit_def upper_letters_def lower_letters_def digit_chars_def processStructField_def
  readEnvKey_def getKeyFromMap_def TrimSpace_def is_space_def

lemma custom_map_run:
  "reaches custom_program custom_source
     ([MapQueueItem (SMap (data custom_source)) (Loc 0 []) (TStruct ''Config'') NoCallback],
      ([OCell VZero], []))
     (MapQueueItem (SMap []) (Loc 0 [1]) (TPtr (TStruct ''Custom'')) NoCallback # [],
      ([OCell (VStruct [(0, VString ''x'')])], []))"
proof -
  let ?root = "MapQueueItem (SMap (data custom_source)) (Loc 0 []) (TStruct ''Config'') NoCallback"
  let ?i1 = "MapQueueItem (SString ''x'') (Loc 0 [0]) TString NoCallback"
  let ?i2 = "MapQueueItem (SMap []) (Loc 0 [1]) (TPtr (TStruct ''Custom'')) NoCallback"
  have s1: "readMapItem custom_program custom_source ?root ([OCell VZero], [])
      = Inr ([?i1, ?i2], ([OCell VZero], []))"
    by (simp add: readMapItem_def convert_def custom_program_def custom_source_def eval_keys)
  have s2: "readMapItem custom_program custom_source ?i1 ([OCell VZero], [])
      = Inr ([], ([OCell (VStruct [(0, VString ''x'')])], []))"
    by (simp add: readMapItem_def convert_def store_def)
  have "reaches custom_program custom_source ([?root], ([OCell VZero], []))
      ([] @ [?i1, ?i2], ([OCell VZero], []))"
    by (rule reaches.turn [OF reaches.start s1])
  then have "reaches custom_program custom_source ([?root], ([OCell VZero], []))
      (?i1 # [?i2], ([OCell VZero], []))" by simp
  from reaches.turn [OF this s2] show ?thesis by simp
qed

lemma custom_map_facts:
  "item_source (MapQueueItem (SMap []) (Loc 0 [1]) (TPtr (TStruct ''Custom'')) NoCallback)
     = SMap []"
  "unwrap_pointers [OCell (VStruct [(0, VString ''x'')])]
     (item_target (MapQueueItem (SMap []) (Loc 0 [1]) (TPtr (TStruct ''Custom'')) NoCallback))
     (item_type (MapQueueItem (SMap []) (Loc 0 [1]) (TPtr (TStruct ''Custom'')) NoCallback))
     = ([OCell (VStruct [(0, VString ''x''), (1, VPtr 1)]), OCell VZero], Loc 1 [],
        TStruct ''Custom'')"
  "reader_of custom_program ''Custom'' = Some (\<lambda>src l h. Inl (ReaderError ''refused''))"
  "(\<lambda>src l h. Inl (ReaderError ''refused''))
     (MapSourceOf (MapSource (source_typ custom_source) [] None)) (Loc 1 [])
     [OCell (VStruct [(0, VString ''x''), (1, VPtr 1)]), OCell VZero]
     = (Inl (ReaderError ''refused'') :: error + heap)"
  by (simp_all add: custom_program_def store_def)

lemma custom_env_run:
  "env_reaches custom_program bare_world (EnvSource UpperSnakeCaseNormalizer)
     ([EnvQueueItem [] (Loc 0 []) (TStruct ''Config'')], [OCell VZero])
     (EnvQueueItem ''Inner'' (Loc 0 [1]) (TPtr (TStruct ''Custom'')) # [],
      [OCell (VStruct [(0, VString [])])])"
proof -
  let ?es = "EnvSource UpperSnakeCaseNormalizer"
  let ?root = "EnvQueueItem [] (Loc 0 []) (TStruct ''Config'')"
  let ?i1 = "EnvQueueItem ''Name'' (Loc 0 [0]) TString"
  let ?i2 = "EnvQueueItem ''Inner'' (Loc 0 [1]) (TPtr (TStruct ''Custom''))"
  have s1: "readKeyItem custom_program bare_world ?es ?root [OCell VZero]
      = Some (Inr ([?i1, ?i2], [OCell VZero]))"
    by (simp add: readKeyItem_def custom_program_def processStructField_def)
  have s2: "readKeyItem custom_program bare_world ?es ?i1 [OCell VZero]
      = Some (Inr ([], [OCell (VStruct [(0, VString [])])]))"
    by (simp add: readKeyItem_def readEnvPrimitive_def bare_world_def store_def eval_keys)
  have "env_reaches custom_program bare_world ?es ([?root], [OCell VZero])
      ([] @ [?i1, ?i2], [OCell VZero])"
    by (rule env_reaches.env_turn [OF env_reaches.env_start s1])
  then have "env_reaches custom_program bare_world ?es ([?root], [OCell VZero])
      (?i1 # [?i2], [OCell VZero])" by simp
  from env_reaches.env_turn [OF this s2] show ?thesis by simp
qed

lemma custom_env_facts:
  "unwrap_pointers [OCell (VStruct [(0, VString [])])]
     (env_target (EnvQueueItem ''Inner'' (Loc 0 [1]) (TPtr (TStruct ''Custom''))))
     (env_type (EnvQueueItem ''Inner'' (Loc 0 [1]) (TPtr (TStruct ''Custom''))))
     = ([OCell (VStruct [(0, VString []), (1, VPtr 1)]), OCell VZero], Loc 1 [],
        TStruct ''Custom'')"
  "reader_of custom_program ''Custom'' = Some (\<lambda>src l h. Inl (ReaderError ''refused''))"
  "(\<lambda>src l h. Inl (ReaderError ''refused''))
     (PrefixedSource
        (item_key (EnvQueueItem ''Inner'' (Loc 0 [1]) (TPtr (TStruct ''Custom''))))
        (EnvSource UpperSnakeCaseNormalizer)) (Loc 1 [])
     [OCell (VStruct [(0, VString []), (1, VPtr 1)]), OCell VZero]
     = (Inl (ReaderError ''refused'') :: error + heap)"
  by (simp_all add: custom_program_def store_def)

lemma items_json_source:
  "NewJSONSource items_world [] [] = Inr (MapSource JSONSourceType [] (Some CamelCaseNormalizer))"
  by (simp add: NewJSONSource_def NormalizerForSourceType_def GetConventionForSourceType_def
      stringOrDefault_def items_world_def bare_world_def default_sourceConventions_def
      GetNormalizer_def SnakeCaseConvention_def CamelCaseConvention_def
      UpperSnakeCaseConvention_def EnvSourceType_def YAMLSourceType_def JSONSourceType_def
      ToUpper_def to_upper_def upper_letters_def lower_letters_def)

lemma custom_items_facts:
  \<open>env_reaches custom_program items_world (EnvSource UpperSnakeCaseNormalizer)
     ([EnvQueueItem ''items'' (Loc 0 []) (TSlice (TStruct ''Custom''))], [OCell VZero])
     (EnvQueueItem ''items'' (Loc 0 []) (TSlice (TStruct ''Custom'')) # [], [OCell VZero])\<close>
  \<open>unwrap_pointers [OCell VZero]
     (env_target (EnvQueueItem ''items'' (Loc 0 []) (TSlice (TStruct ''Custom''))))
     (env_type (EnvQueueItem ''items'' (Loc 0 []) (TSlice (TStruct ''Custom''))))
     = ([OCell VZero], Loc 0 [], TSlice (TStruct ''Custom''))\<close>
  \<open>readEnvKey items_world (EnvSource UpperSnakeCaseNormalizer)
     (item_key (EnvQueueItem ''items'' (Loc 0 []) (TSlice (TStruct ''Custom''))))
     = Inr ''[{}]''\<close>
  \<open>TrimSpace ''[{}]'' \<noteq> []\<close>
  \<open>is_struct (TStruct ''Custom'') \<or> is_slice (TStruct ''Custom'')\<close>
  \<open>Unmarshal_slice items_world (TrimSpace ''[{}]'') = Inr (SSlice [SMap []])\<close>
  \<open>readMapPrimitive custom_program (MapSource JSONSourceType [] (Some CamelCaseNormalizer))
     (SSlice [SMap []]) (Loc 0 []) (TSlice (TStruct ''Custom'')) [OCell VZero]
     = Some (Inl (ReaderError ''refused''))\<close>
  by (simp_all add: env_reaches.env_start items_world_def bare_world_def
      Unmarshal_slice_def eval_keys readMapPrimitive_def readMapLoop_Cons readMapLoop_Nil
      readMapItem_def convert_def custom_program_def)

lemma custom_mapping_facts:
  "unwrap_pointers [OCell VZero]
     (env_target (EnvQueueItem ''Labels'' (Loc 0 []) (TMap TString (TStruct ''Custom''))))
     (env_type (EnvQueueItem ''Labels'' (Loc 0 []) (TMap TString (TStruct ''Custom''))))
     = ([OCell VZero], Loc 0 [], TMap TString (TStruct ''Custom''))"
  "\<not> is_struct (TMap TString (TStruct ''Custom''))"
  "\<not> is_slice (TMap TString (TStruct ''Custom''))"
  by simp_all

theorem custom_decoder_errors_surface_witness:
  "reader_of custom_program ''Custom'' = Some (\<lambda>src l h. Inl (ReaderError ''refused''))
   \<and> MapSource_Read custom_program custom_source (Pointer (Loc 0 []) (TStruct ''Config''))
        [OCell VZero] = Some (Inl (ReaderError ''refused''))
   \<and> EnvSource_Read custom_program bare_world (EnvSource UpperSnakeCaseNormalizer)
        (Pointer (Loc 0 []) (TStruct ''Config'')) [OCell VZero]
       = Some (Inl (ReaderError ''refused''))
   \<and> EnvSource_ReadKey custom_program items_world (EnvSource UpperSnakeCaseNormalizer)
        ''items'' (Pointer (Loc 0 []) (TSlice (TStruct ''Custom''))) [OCell VZero]
       = Some (Inl (ReaderError ''refused''))
   \<and> readKeyItem custom_program labels_world (EnvSource UpperSnakeCaseNormalizer)
        (EnvQueueItem ''Labels'' (Loc 0 []) (TMap TString (TStruct ''Custom''))) [OCell VZero]
       = readKeyItem no_types labels_world (EnvSource UpperSnakeCaseNormalizer)
        (EnvQueueItem ''Labels'' (Loc 0 []) (TMap TString (TStruct ''Custom''))) [OCell VZero]"
proof -
  note m = custom_decoder_errors_surface [where P = custom_program and s = custom_source
      and ?v0.0 = "SMap (data custom_source)" and ?tgt0.0 = "Loc 0 []"
      and ?t0.0 = "TStruct ''Config''" and ?h0.0 = "[OCell VZero]"
      and item = "MapQueueItem (SMap []) (Loc 0 [1]) (TPtr (TStruct ''Custom'')) NoCallback"
      and rest = "[]" and h = "[OCell (VStruct [(0, VString ''x'')])]" and fl = "[]"
      and m = "[]" and ?h1.0 = "[OCell (VStruct [(0, VString ''x''), (1, VPtr 1)]), OCell VZero]"
      and tgt = "Loc 1 []" and name = "''Custom''"
      and reader = "\<lambda>src l h. Inl (ReaderError ''refused'')"
      and err = "ReaderError ''refused''"]
  note m2 = m [THEN conjunct2, THEN conjunct1, THEN mp, THEN mp, THEN mp, THEN mp, THEN mp,
      OF custom_map_run custom_map_facts]
  note m9 = m [THEN conjunct2, THEN conjunct2, THEN conjunct2, THEN conjunct2, THEN conjunct2,
      THEN conjunct2, THEN conjunct2, THEN conjunct2, THEN conjunct1]
  have a: "MapSource_Read custom_program custom_source (Pointer (Loc 0 []) (TStruct ''Config''))
        [OCell VZero] = Some (Inl (ReaderError ''refused''))"
    using m2 m9 by simp
  note e = custom_decoder_errors_surface [where P = custom_program and w = bare_world
      and es = "EnvSource UpperSnakeCaseNormalizer"
      and ?k0.0 = "[]" and ?etgt0.0 = "Loc 0 []" and ?et0.0 = "TStruct ''Config''"
      and ?eh0.0 = "[OCell VZero]"
      and eitem = "EnvQueueItem ''Inner'' (Loc 0 [1]) (TPtr (TStruct ''Custom''))"
      and erest = "[]" and eh = "[OCell (VStruct [(0, VString [])])]"
      and ?eh1.0 = "[OCell (VStruct [(0, VString []), (1, VPtr 1)]), OCell VZero]"
      and etgt = "Loc 1 []" and name = "''Custom''"
      and reader = "\<lambda>src l h. Inl (ReaderError ''refused'')"
      and err = "ReaderError ''refused''"]
  note e4 = e [THEN conjunct2, THEN conjunct2, THEN conjunct2, THEN conjunct1,
      THEN mp, THEN mp, THEN mp, THEN mp, OF custom_env_run custom_env_facts]
  note e11 = e [THEN conjunct2, THEN conjunct2, THEN conjunct2, THEN conjunct2, THEN conjunct2,
      THEN conjunct2, THEN conjunct2, THEN conjunct2, THEN conjunct2, THEN conjunct2,
      THEN conjunct1]
  have b: "EnvSource_Read custom_program bare_world (EnvSource UpperSnakeCaseNormalizer)
        (Pointer (Loc 0 []) (TStruct ''Config'')) [OCell VZero]
       = Some (Inl (ReaderError ''refused''))"
    using e4 e11 by simp
  note j = custom_decoder_errors_surface [where P = custom_program and w = items_world
      and es = "EnvSource UpperSnakeCaseNormalizer"
      and ?k0.0 = "''items''" and ?etgt0.0 = "Loc 0 []"
      and ?et0.0 = "TSlice (TStruct ''Custom'')" and ?eh0.0 = "[OCell VZero]"
      and eitem = "EnvQueueItem ''items'' (Loc 0 []) (TSlice (TStruct ''Custom''))"
      and erest = "[]" and eh = "[OCell VZero]" and ?eh1.0 = "[OCell VZero]"
      and etgt = "Loc 0 []" and elt = "TStruct ''Custom''" and raw = \<open>''[{}]''\<close>
      and d = "SSlice [SMap []]"
      and source = "MapSource JSONSourceType [] (Some CamelCaseNormalizer)"
      and err = "ReaderError ''refused''" and key = "''items''"]
  note j5 = j [THEN conjunct2, THEN conjunct2, THEN conjunct2, THEN conjunct2, THEN conjunct1,
      THEN mp, THEN mp, THEN mp, THEN mp, THEN mp, THEN mp, THEN mp, THEN mp,
      OF custom_items_facts(1-6) items_json_source custom_items_facts(7)]
  note j12 = j [THEN conjunct2, THEN conjunct2, THEN conjunct2, THEN conjunct2, THEN conjunct2,
      THEN conjunct2, THEN conjunct2, THEN conjunct2, THEN conjunct2, THEN conjunct2,
      THEN conjunct2]
  have c: "EnvSource_ReadKey custom_program items_world (EnvSource UpperSnakeCaseNormalizer)
        ''items'' (Pointer (Loc 0 []) (TSlice (TStruct ''Custom''))) [OCell VZero]
       = Some (Inl (ReaderError ''refused''))"
    using j5 j12 by simp
  note d = custom_decoder_errors_surface [where P = custom_program and P' = no_types
      and w = labels_world and es = "EnvSource UpperSnakeCaseNormalizer"
      and eitem = "EnvQueueItem ''Labels'' (Loc 0 []) (TMap TString (TStruct ''Custom''))"
      and eh = "[OCell VZero]" and ?eh1.0 = "[OCell VZero]" and etgt = "Loc 0 []"
      and pt = "TMap TString (TStruct ''Custom'')",
      THEN conjunct2, THEN conjunct2, THEN conjunct2, THEN conjunct2, THEN conjunct2,
      THEN conjunct2, THEN conjunct1, THEN mp, THEN mp, THEN mp, OF custom_mapping_facts]
  show ?thesis
    by (rule conjI [OF custom_map_facts(3) conjI [OF a conjI [OF b conjI [OF c d]]]])
qed

subsection \<open>Errors that reach the caller\<close>







lemma readMapItem_absorbs:
  assumes "unwrap_pointers h (item_target item) (item_type item) = (h1, tgt, t)"
    and "coercion_fails t (item_source item)"
  shows "readMapItem P s item (h, fl) = Inr ([], (h1, fl))"
  using assms
  by (cases t; cases "item_source item")
    (auto simp: readMapItem_def coercion_fails_def split: sum.splits)

















subsection \<open>The flags of mapping entries\<close>

lemma key_flags_append: "key_flags (xs @ ys) = key_flags xs @ key_flags ys"
  by (induction xs) (simp_all split: callbackFunc.splits)

lemma string_keys_append: "string_keys (xs @ ys) = (string_keys xs \<and> string_keys ys)"
  by (simp add: string_keys_def)

lemma slice_items_flags: "key_flags (slice_items a et i xs) = [] \<and> string_keys (slice_items a et i xs)"
  by (induction xs arbitrary: i) (simp_all add: string_keys_def)

lemma field_items_flags:
  "field_items n m tgt i fs = Inr items \<Longrightarrow> key_flags items = [] \<and> string_keys items"
proof (induction fs arbitrary: i items)
  case Nil
  then show ?case by (simp add: string_keys_def)
next
  case (Cons f fs)
  then show ?case
    by (auto simp: Let_def string_keys_def split: if_splits sum.splits)
qed

lemma entry_pairs_flags:
  "key_flags (concat (map (entry_pair a kt vt b f) (enumerate n m))) = [f + n ..< f + n + length m]
   \<and> string_keys (concat (map (entry_pair a kt vt b f) (enumerate n m)))"
proof (induction m arbitrary: n)
  case Nil
  show ?case by (simp add: string_keys_def)
next
  case (Cons e m)
  obtain k v where e: "e = (k, v)" by (cases e)
  have u: "[f + n ..< f + n + length (e # m)] = (f + n) # [f + Suc n ..< f + Suc n + length m]"
    by (simp add: upt_conv_Cons del: upt_Suc)
  show ?case
    unfolding u using Cons [of "Suc n"]
    by (simp add: e entry_pair_def string_keys_def del: upt_Suc)
qed

lemma entry_items_flags:
  assumes "entry_items a kt vt m (h, fl) = (items, (h', fl'))"
  shows "key_flags items = [length fl ..< length fl + length m]
    \<and> fl' = fl @ replicate (length m) False \<and> string_keys items"
  using assms entry_pairs_flags [of a kt vt "length h" "length fl" 0 m]
  by (simp add: entry_items_eq)

lemma complete_flags:
  "complete cb (hx, flx) = (h', fl')
   \<Longrightarrow> fl' = flx \<or> (\<exists>f. cb = KeyInitialized f \<and> fl' = flx[f := True])"
  by (cases cb) (auto split: if_splits)

lemma readMapItem_flags:
  assumes "readMapItem P s item (h, fl) = Inr (items, (h', fl'))"
  shows "\<exists>n. key_flags items = [length fl ..< length fl + n] \<and> string_keys items
    \<and> (fl' = fl @ replicate n False
        \<or> (\<exists>f. item_callback item = KeyInitialized f \<and> fl' = (fl @ replicate n False)[f := True]))"
proof -
  let ?F = "fl' = fl \<or> (\<exists>f. item_callback item = KeyInitialized f \<and> fl' = fl[f := True])"
  have simple: ?thesis if "key_flags items = [] \<and> string_keys items \<and> ?F"
    by (rule exI [of _ 0]) (use that in simp)
  have none_new: ?thesis if "items = [] \<and> ?F"
    by (rule exI [of _ 0]) (use that in \<open>simp add: string_keys_def\<close>)
  show ?thesis
  proof (cases "item_source item = SNil")
    case True
    with assms have "items = [] \<and> ?F" by (simp add: readMapItem_def)
    then show ?thesis by (rule none_new)
  next
    case False
    obtain h1 tgt t where u:
      "unwrap_pointers h (item_target item) (item_type item) = (h1, tgt, t)"
      by (cases "unwrap_pointers h (item_target item) (item_type item)") auto
    show ?thesis
    proof (cases "convert t (item_source item)")
      case (Some v)
      with assms False u have "items = [] \<and> ?F"
        by (auto simp: readMapItem_def dest: complete_flags)
      then show ?thesis by (rule none_new)
    next
      case None
      show ?thesis
      proof (cases t)
        case TBool
        with assms False u None have "items = [] \<and> ?F"
          by (cases "item_source item")
            (auto simp: readMapItem_def Let_def split: sum.splits dest: complete_flags)
        then show ?thesis by (rule none_new)
      next
        case (TSlice et)
        show ?thesis
        proof (cases "item_source item")
          case (SSlice xs)
          with assms False u None TSlice
          have "items = slice_items (length h1) et 0 xs" and ?F
            by (auto simp: readMapItem_def Let_def dest: complete_flags)
          then have "key_flags items = [] \<and> string_keys items \<and> ?F"
            by (simp add: slice_items_flags)
          then show ?thesis by (rule simple)
        qed (rule none_new; use assms False u None TSlice in
            \<open>auto simp: readMapItem_def dest: complete_flags\<close>)+
      next
        case (TMap kt vt)
        show ?thesis
        proof (cases "item_source item")
          case (SMap m)
          obtain its ha fla where e:
            "entry_items (length h1) kt vt m (h1 @ [OMap []], fl) = (its, (ha, fla))"
            by (cases "entry_items (length h1) kt vt m (h1 @ [OMap []], fl)") auto
          note f = entry_items_flags [OF e]
          from assms False u None TMap SMap e
          have "items = its"
            and "complete (item_callback item) (store ha tgt (VMap (length h1)), fla) = (h', fl')"
            by (simp_all add: readMapItem_def Let_def)
          with f complete_flags [of "item_callback item" _ fla h' fl'] show ?thesis
            by (intro exI [of _ "length m"]) auto
        next
          case SIfaceMapNil
          with assms False u None TMap have "items = [] \<and> ?F"
            by (auto simp: readMapItem_def Let_def dest: complete_flags)
          then show ?thesis by (rule none_new)
        qed (rule none_new; use assms False u None TMap in
            \<open>auto simp: readMapItem_def dest: complete_flags\<close>)+
      next
        case (TStruct name)
        show ?thesis
        proof (cases "item_source item")
          case (SMap m)
          show ?thesis
          proof (cases "reader_of P name")
            case rd: (Some reader)
            with assms False u None TStruct SMap have "items = [] \<and> ?F"
              by (auto simp: readMapItem_def split: sum.splits dest: complete_flags)
            then show ?thesis by (rule none_new)
          next
            case rd: None
            with assms False u None TStruct SMap
            have "field_items (map_normalizer s) m tgt 0 (fields_of P name) = Inr items" and ?F
              by (auto simp: readMapItem_def split: sum.splits dest: complete_flags)
            then have "key_flags items = [] \<and> string_keys items \<and> ?F"
              by (auto dest: field_items_flags)
            then show ?thesis by (rule simple)
          qed
        qed (rule none_new; use assms False u None TStruct in
            \<open>auto simp: readMapItem_def dest: complete_flags\<close>)+
      qed (rule none_new; use assms False u None in
            \<open>auto simp: readMapItem_def dest: complete_flags\<close>)+
    qed
  qed
qed

lemma flags_inv_turn:
  assumes inv: "flags_inv (item # rest) fl"
    and step: "readMapItem P s item (h, fl) = Inr (items, (h', fl'))"
  shows "flags_inv (rest @ items) fl'"
proof -
  from readMapItem_flags [OF step] obtain n where
    kf: "key_flags items = [length fl ..< length fl + n]" and sk: "string_keys items"
    and fl': "fl' = fl @ replicate n False
      \<or> (\<exists>f. item_callback item = KeyInitialized f \<and> fl' = (fl @ replicate n False)[f := True])"
    by blast
  from inv have d: "distinct (key_flags rest)"
    and b: "\<forall>g \<in> set (key_flags rest). g < length fl \<and> \<not> fl ! g"
    and s: "string_keys rest"
    by (auto simp: flags_inv_def string_keys_def list_all_iff split: callbackFunc.splits)
  have own: "f \<notin> set (key_flags rest) \<and> f < length fl" if "item_callback item = KeyInitialized f" for f
    using inv that by (auto simp: flags_inv_def list_all_iff)
  have len: "length fl' = length fl + n" using fl' by auto
  have old: "\<not> fl' ! g" if g: "g \<in> set (key_flags rest)" for g
  proof -
    from b g have lt: "g < length fl" and unset: "\<not> fl ! g" by simp_all
    from fl' show ?thesis
    proof
      assume "fl' = fl @ replicate n False"
      with lt unset show ?thesis by (simp add: nth_append)
    next
      assume "\<exists>f. item_callback item = KeyInitialized f \<and> fl' = (fl @ replicate n False)[f := True]"
      then obtain f where f: "item_callback item = KeyInitialized f"
        and e: "fl' = (fl @ replicate n False)[f := True]" by blast
      from own [OF f] g have "f \<noteq> g" by auto
      with e lt unset show ?thesis by (simp add: nth_append)
    qed
  qed
  have new: "\<not> fl' ! g" if ge: "length fl \<le> g" and lt: "g < length fl + n" for g
  proof -
    from fl' show ?thesis
    proof
      assume "fl' = fl @ replicate n False"
      with ge lt show ?thesis by (simp add: nth_append)
    next
      assume "\<exists>f. item_callback item = KeyInitialized f \<and> fl' = (fl @ replicate n False)[f := True]"
      then obtain f where f: "item_callback item = KeyInitialized f"
        and e: "fl' = (fl @ replicate n False)[f := True]" by blast
      from own [OF f] ge have "f \<noteq> g" by auto
      with e ge lt show ?thesis by (simp add: nth_append)
    qed
  qed
  have "distinct (key_flags rest @ [length fl ..< length fl + n])"
    using d b by auto
  moreover have "\<forall>g \<in> set (key_flags rest @ [length fl ..< length fl + n]).
      g < length fl' \<and> \<not> fl' ! g"
    using b old new len by auto
  ultimately show ?thesis
    using s sk by (simp add: flags_inv_def key_flags_append kf string_keys_append list_all_iff)
qed

lemma reaches_flags_inv:
  assumes "reaches P s c c'" and "flags_inv (fst c) (snd (snd c))"
  shows "flags_inv (fst c') (snd (snd c'))"
  using assms
proof (induction rule: reaches.induct)
  case start
  then show ?case by simp
next
  case (turn item rest st items st')
  obtain h fl where st: "st = (h, fl)" by (cases st)
  obtain h' fl' where st': "st' = (h', fl')" by (cases st')
  from turn.IH turn.prems have "flags_inv (item # rest) fl" by (simp add: st)
  from flags_inv_turn [OF this turn.hyps(2) [unfolded st st']] show ?case by (simp add: st')
qed

lemma convert_SNil: "convert t SNil = None"
  by (simp add: convert_def)

lemma readMapItem_converts:
  assumes "unwrap_pointers h (item_target item) (item_type item) = (h1, tgt, t)"
    and "convert t (item_source item) = Some x"
  shows "readMapItem P s item (h, fl) = Inr ([], complete (item_callback item) (store h1 tgt x, fl))"
proof -
  from assms(2) have "item_source item \<noteq> SNil" by (auto simp: convert_SNil)
  with assms show ?thesis by (simp add: readMapItem_def)
qed

lemma readMapItem_key_decodes:
  assumes "unwrap_pointers h kl kt = (h1, tgt, t)" and "\<not> coercion_fails t (SString k)"
  shows "\<exists>x. readMapItem P s (MapQueueItem (SString k) kl kt cb) (h, fl)
     = Inr ([], complete cb (store h1 tgt x, fl))"
  using assms
  by (cases t) (auto simp: readMapItem_def coercion_fails_def convert_def split: sum.splits)

lemma readMapItem_completes:
  assumes step: "readMapItem P s item (h, fl) = Inr (items, st')"
    and u: "unwrap_pointers h (item_target item) (item_type item) = (h1, tgt, t)"
    and src: "item_source item \<noteq> SNil"
    and ok: "\<not> coercion_fails t (item_source item)"
  shows "\<exists>h' n. st' = complete (item_callback item) (h', fl @ replicate n False)"
proof (cases "convert t (item_source item)")
  case (Some x)
  from readMapItem_converts [OF u Some, of P s fl] step
  have "st' = complete (item_callback item) (store h1 tgt x, fl @ replicate 0 False)" by simp
  then show ?thesis by blast
next
  case None
  have zero: ?thesis if "st' = complete (item_callback item) (hx, fl)" for hx
    using that by (intro exI [of _ hx] exI [of _ 0]) simp
  show ?thesis
  proof (cases t)
    case TBool
    with step u src ok None show ?thesis
      by (cases "item_source item")
        (auto simp: readMapItem_def coercion_fails_def split: sum.splits intro!: zero)
  next
    case (TSlice et)
    with step u src ok None show ?thesis
      by (cases "item_source item")
        (auto simp: readMapItem_def coercion_fails_def Let_def intro!: zero)
  next
    case (TMap kt vt)
    show ?thesis
    proof (cases "item_source item")
      case (SMap m)
      from step u src None TMap SMap
      have "st' = complete (item_callback item)
          (store (h1 @ OMap [] # replicate (2 * length m) (OCell VZero)) tgt (VMap (length h1)),
           fl @ replicate (length m) False)"
        by (simp add: readMapItem_def Let_def entry_items_eq)
      then show ?thesis by blast
    next
      case SIfaceMapNil
      with step u src None TMap show ?thesis
        by (auto simp: readMapItem_def Let_def intro!: zero)
    qed (use ok None TMap src in \<open>simp_all add: coercion_fails_def\<close>)
  next
    case (TStruct name)
    show ?thesis
    proof (cases "item_source item")
      case (SMap m)
      show ?thesis
      proof (cases "reader_of P name")
        case rd: None
        with step u src None TStruct SMap have "st' = complete (item_callback item) (h1, fl)"
          by (auto simp: readMapItem_def split: sum.splits)
        then show ?thesis by (rule zero)
      next
        case rd: (Some reader)
        with step u src None TStruct SMap obtain h2 where
          "st' = complete (item_callback item) (h2, fl)"
          by (auto simp: readMapItem_def split: sum.splits)
        then show ?thesis by (rule zero)
      qed
    qed (use ok None TStruct src in \<open>simp_all add: coercion_fails_def\<close>)
  qed (use ok None src in \<open>simp_all add: coercion_fails_def\<close>)
qed

lemma key_item_turn:
  assumes r: "reaches P s ([MapQueueItem v0 tgt0 t0 NoCallback], (h0, []))
      (MapQueueItem ksrc kl kt (KeyInitialized f) # rest, (h, fl))"
    and u: "unwrap_pointers h kl kt = (h1, tgt, t)"
  shows "\<exists>k v vl vt m rest'. ksrc = SString k
      \<and> rest = MapQueueItem v vl vt (CommitEntry f m kl vl) # rest'
      \<and> f < length fl \<and> \<not> fl ! f
      \<and> (\<exists>h2 fl2. readMapItem P s (MapQueueItem ksrc kl kt (KeyInitialized f)) (h, fl)
              = Inr ([], (h2, fl2))
           \<and> reaches P s ([MapQueueItem v0 tgt0 t0 NoCallback], (h0, []))
                (MapQueueItem v vl vt (CommitEntry f m kl vl) # rest', (h2, fl2))
           \<and> length fl2 = length fl
           \<and> (fl2 ! f \<longleftrightarrow> \<not> coercion_fails t (SString k)))"
proof -
  let ?K = "MapQueueItem ksrc kl kt (KeyInitialized f)"
  let ?c0 = "([MapQueueItem v0 tgt0 t0 NoCallback], (h0, [] :: bool list))"
  have "flags_inv (fst ?c0) (snd (snd ?c0))" by (simp add: flags_inv_def string_keys_def)
  from reaches_flags_inv [OF r this] have inv: "flags_inv (?K # rest) fl" by simp
  then have f: "f < length fl" "\<not> fl ! f" by (simp_all add: flags_inv_def)
  from inv obtain k where k: "ksrc = SString k"
    by (cases ksrc) (simp_all add: flags_inv_def string_keys_def)
  have "fifo_inv (fst ?c0)" by (simp add: fifo_inv_def)
  from reaches_fifo_inv [OF r this] have "paired (?K # rest)" by (simp add: fifo_inv_def)
  then obtain v vl vt m rest' where rest: "rest = MapQueueItem v vl vt (CommitEntry f m kl vl) # rest'"
    by (cases "?K # rest" rule: paired.cases) auto
  have "\<exists>h2 fl2. readMapItem P s ?K (h, fl) = Inr ([], (h2, fl2))
      \<and> length fl2 = length fl \<and> (fl2 ! f \<longleftrightarrow> \<not> coercion_fails t (SString k))"
  proof (cases "coercion_fails t (SString k)")
    case True
    from readMapItem_absorbs [of h ?K h1 tgt t P s fl] u True k f show ?thesis by simp
  next
    case False
    from readMapItem_key_decodes [OF u False, of P s "KeyInitialized f" fl] f False k
    show ?thesis by auto
  qed
  then obtain h2 fl2 where step: "readMapItem P s ?K (h, fl) = Inr ([], (h2, fl2))"
    and l: "length fl2 = length fl" and v: "fl2 ! f \<longleftrightarrow> \<not> coercion_fails t (SString k)"
    by blast
  from reaches.turn [OF r step]
  have "reaches P s ?c0 (MapQueueItem v vl vt (CommitEntry f m kl vl) # rest', (h2, fl2))"
    by (simp add: rest)
  with k rest f step l v show ?thesis by blast
qed

text \<open>
  C3, as stated, fails where the key does not decode: the key \<open>a\<close> is no \<^verbatim>\<open>int\<close>, so the
  key item ends without its callback and the flag stays unset; the value item, taken
  next, converts and runs its callback with the flag unset, and nothing is committed.
\<close>

theorem value_callback_flag_unset:
  "readMapItem no_types one_entry_source
      (MapQueueItem (SMap [(''a'', SFloat 1)]) (Loc 0 []) (TMap TInt TInt) NoCallback)
      ([OCell VZero], [])
    = Inr ([MapQueueItem (SString ''a'') (Loc 2 []) TInt (KeyInitialized 0),
            MapQueueItem (SFloat 1) (Loc 3 []) TInt (CommitEntry 0 1 (Loc 2 []) (Loc 3 []))],
           ([OCell (VMap 1), OMap [], OCell VZero, OCell VZero], [False]))
   \<and> readMapItem no_types one_entry_source
        (MapQueueItem (SString ''a'') (Loc 2 []) TInt (KeyInitialized 0))
        ([OCell (VMap 1), OMap [], OCell VZero, OCell VZero], [False])
      = Inr ([], ([OCell (VMap 1), OMap [], OCell VZero, OCell VZero], [False]))
   \<and> convert TInt (SFloat 1) = Some (VInt 1)
   \<and> readMapItem no_types one_entry_source
        (MapQueueItem (SFloat 1) (Loc 3 []) TInt (CommitEntry 0 1 (Loc 2 []) (Loc 3 [])))
        ([OCell (VMap 1), OMap [], OCell VZero, OCell VZero], [False])
      = Inr ([], ([OCell (VMap 1), OMap [], OCell VZero, OCell (VInt 1)], [False]))
   \<and> MapSource_ReadKey no_types one_entry_source [] (Pointer (Loc 0 []) (TMap TInt TInt))
        [OCell VZero]
      = Some (Inr [OCell (VMap 1), OMap [], OCell VZero, OCell (VInt 1)])"
  by (simp add: eval_map)

text \<open>
  C3, amended. For every entry of the source mapping the mapping case appends the key
  item and directly after it the value item, sharing one fresh flag that starts unset. A
  turn whose value converts stores it and runs the callback of the item; a turn whose
  value cannot be given the target type runs no callback. The key item's callback sets
  the flag; the value item's callback commits the entry if the flag is set and does
  nothing otherwise. In every queue the loop reaches, a value item stands directly behind
  its own key item or, once that has been taken, at the head; and when a key item is at
  the head, its source is a string, its flag is allocated and still unset, its turn
  appends nothing, and the next configuration has the value item of the same entry at the
  head with the flag set exactly when the key could be given the key type. So the key
  item has always been processed when the value item's callback runs, and the flag is
  then set if and only if the key decoded.
\<close>

theorem map_entry_protocol:
  "(item_source item = SMap m \<longrightarrow>
      unwrap_pointers h (item_target item) (item_type item) = (h1, tgt, TMap kt vt) \<longrightarrow>
      convert (TMap kt vt) (SMap m) = None \<longrightarrow>
      readMapItem P s item (h, fl) =
        Inr (concat (map (entry_pair (length h1) kt vt (Suc (length h1)) (length fl))
                      (enumerate 0 m)),
             complete (item_callback item)
               (store (h1 @ OMap [] # replicate (2 * length m) (OCell VZero)) tgt
                  (VMap (length h1)),
                fl @ replicate (length m) False)))
   \<and> (unwrap_pointers h (item_target item) (item_type item) = (h1, tgt, t) \<longrightarrow>
      convert t (item_source item) = Some x \<longrightarrow>
        readMapItem P s item (h, fl)
          = Inr ([], complete (item_callback item) (store h1 tgt x, fl)))
   \<and> (unwrap_pointers h (item_target item) (item_type item) = (h1, tgt, t) \<longrightarrow>
      coercion_fails t (item_source item) \<longrightarrow>
        readMapItem P s item (h, fl) = Inr ([], (h1, fl)))
   \<and> complete (KeyInitialized f) (h, fl) = (h, fl[f := True])
   \<and> complete (CommitEntry f newMap k v) (h, fl) =
       (if f < length fl \<and> fl ! f then (SetMapIndex h newMap (load h k) (load h v), fl)
        else (h, fl))
   \<and> (reaches P s ([MapQueueItem v0 tgt0 t0 NoCallback], st0) (queue, st) \<longrightarrow> fifo_inv queue)
   \<and> (reaches P s ([MapQueueItem v0 tgt0 t0 NoCallback], (h0, []))
        (MapQueueItem ksrc kl ktype (KeyInitialized f) # rest, (h, fl)) \<longrightarrow>
      unwrap_pointers h kl ktype = (h1, tgt, t) \<longrightarrow>
        (\<exists>key val vl vtype newMap rest'. ksrc = SString key
           \<and> rest = MapQueueItem val vl vtype (CommitEntry f newMap kl vl) # rest'
           \<and> f < length fl \<and> \<not> fl ! f
           \<and> (\<exists>h2 fl2.
                 readMapItem P s (MapQueueItem ksrc kl ktype (KeyInitialized f)) (h, fl)
                   = Inr ([], (h2, fl2))
                 \<and> reaches P s ([MapQueueItem v0 tgt0 t0 NoCallback], (h0, []))
                      (MapQueueItem val vl vtype (CommitEntry f newMap kl vl) # rest', (h2, fl2))
                 \<and> length fl2 = length fl
                 \<and> (fl2 ! f \<longleftrightarrow> \<not> coercion_fails t (SString key)))))"
proof (intro conjI impI)
  assume "item_source item = SMap m"
    and "unwrap_pointers h (item_target item) (item_type item) = (h1, tgt, TMap kt vt)"
    and "convert (TMap kt vt) (SMap m) = None"
  then show "readMapItem P s item (h, fl) =
        Inr (concat (map (entry_pair (length h1) kt vt (Suc (length h1)) (length fl))
                      (enumerate 0 m)),
             complete (item_callback item)
               (store (h1 @ OMap [] # replicate (2 * length m) (OCell VZero)) tgt
                  (VMap (length h1)),
                fl @ replicate (length m) False))"
    by (rule readMapItem_mapping)
next
  assume "unwrap_pointers h (item_target item) (item_type item) = (h1, tgt, t)"
    "convert t (item_source item) = Some x"
  then show "readMapItem P s item (h, fl)
          = Inr ([], complete (item_callback item) (store h1 tgt x, fl))"
    by (rule readMapItem_converts)
next
  assume "unwrap_pointers h (item_target item) (item_type item) = (h1, tgt, t)"
    "coercion_fails t (item_source item)"
  then show "readMapItem P s item (h, fl) = Inr ([], (h1, fl))"
    by (rule readMapItem_absorbs)
next
  show "complete (KeyInitialized f) (h, fl) = (h, fl[f := True])" by simp
next
  show "complete (CommitEntry f newMap k v) (h, fl) =
       (if f < length fl \<and> fl ! f then (SetMapIndex h newMap (load h k) (load h v), fl)
        else (h, fl))" by simp
next
  assume r: "reaches P s ([MapQueueItem v0 tgt0 t0 NoCallback], st0) (queue, st)"
  have "fifo_inv (fst ([MapQueueItem v0 tgt0 t0 NoCallback], st0))" by (simp add: fifo_inv_def)
  from reaches_fifo_inv [OF r this] show "fifo_inv queue" by simp
next
  assume "reaches P s ([MapQueueItem v0 tgt0 t0 NoCallback], (h0, []))
        (MapQueueItem ksrc kl ktype (KeyInitialized f) # rest, (h, fl))"
    "unwrap_pointers h kl ktype = (h1, tgt, t)"
  then show "\<exists>key val vl vtype newMap rest'. ksrc = SString key
           \<and> rest = MapQueueItem val vl vtype (CommitEntry f newMap kl vl) # rest'
           \<and> f < length fl \<and> \<not> fl ! f
           \<and> (\<exists>h2 fl2.
                 readMapItem P s (MapQueueItem ksrc kl ktype (KeyInitialized f)) (h, fl)
                   = Inr ([], (h2, fl2))
                 \<and> reaches P s ([MapQueueItem v0 tgt0 t0 NoCallback], (h0, []))
                      (MapQueueItem val vl vtype (CommitEntry f newMap kl vl) # rest', (h2, fl2))
                 \<and> length fl2 = length fl
                 \<and> (fl2 ! f \<longleftrightarrow> \<not> coercion_fails t (SString key)))"
    by (rule key_item_turn)
qed

lemma committed_example:
  "MapSource_ReadKey no_types one_entry_source [] (Pointer (Loc 0 []) (TMap TString TInt))
     [OCell VZero]
   = Some (Inr [OCell (VMap 1), OMap [(VString ''a'', VInt 1)], OCell (VString ''a''),
                OCell (VInt 1)])"
  by (simp add: eval_map)

lemma map_entry_example:
  "item_source (MapQueueItem (SMap [(''a'', SFloat 1)]) (Loc 0 []) (TMap TString TInt) NoCallback)
     = SMap [(''a'', SFloat 1)]"
  "unwrap_pointers [OCell VZero]
     (item_target (MapQueueItem (SMap [(''a'', SFloat 1)]) (Loc 0 []) (TMap TString TInt)
        NoCallback))
     (item_type (MapQueueItem (SMap [(''a'', SFloat 1)]) (Loc 0 []) (TMap TString TInt)
        NoCallback))
     = ([OCell VZero], Loc 0 [], TMap TString TInt)"
  "convert (TMap TString TInt) (SMap [(''a'', SFloat 1)]) = None"
  by (simp_all add: convert_def)

lemma key_turn_example:
  "unwrap_pointers [OCell (VMap 1), OMap [], OCell VZero, OCell VZero]
     (item_target (MapQueueItem (SString ''a'') (Loc 2 []) TString (KeyInitialized 0)))
     (item_type (MapQueueItem (SString ''a'') (Loc 2 []) TString (KeyInitialized 0)))
     = ([OCell (VMap 1), OMap [], OCell VZero, OCell VZero], Loc 2 [], TString)"
  "convert TString
     (item_source (MapQueueItem (SString ''a'') (Loc 2 []) TString (KeyInitialized 0)))
     = Some (VString ''a'')"
  "unwrap_pointers [OCell (VMap 1), OMap [], OCell VZero, OCell VZero] (Loc 2 []) TString
     = ([OCell (VMap 1), OMap [], OCell VZero, OCell VZero], Loc 2 [], TString)"
  by (simp_all add: convert_def)

lemma value_turn_example:
  "unwrap_pointers [OCell (VMap 1), OMap [], OCell (VString ''a''), OCell VZero]
     (item_target (MapQueueItem (SFloat 1) (Loc 3 []) TInt
        (CommitEntry 0 1 (Loc 2 []) (Loc 3 []))))
     (item_type (MapQueueItem (SFloat 1) (Loc 3 []) TInt
        (CommitEntry 0 1 (Loc 2 []) (Loc 3 []))))
     = ([OCell (VMap 1), OMap [], OCell (VString ''a''), OCell VZero], Loc 3 [], TInt)"
  "convert TInt
     (item_source (MapQueueItem (SFloat 1) (Loc 3 []) TInt
        (CommitEntry 0 1 (Loc 2 []) (Loc 3 []))))
     = Some (VInt 1)"
  by (simp_all add: convert_def truncate_rat_def)

theorem map_entry_protocol_witness:
  "readMapItem no_types one_entry_source
      (MapQueueItem (SMap [(''a'', SFloat 1)]) (Loc 0 []) (TMap TString TInt) NoCallback)
      ([OCell VZero], [])
    = Inr ([MapQueueItem (SString ''a'') (Loc 2 []) TString (KeyInitialized 0),
            MapQueueItem (SFloat 1) (Loc 3 []) TInt (CommitEntry 0 1 (Loc 2 []) (Loc 3 []))],
           ([OCell (VMap 1), OMap [], OCell VZero, OCell VZero], [False]))
   \<and> fifo_inv [MapQueueItem (SString ''a'') (Loc 2 []) TString (KeyInitialized 0),
               MapQueueItem (SFloat 1) (Loc 3 []) TInt (CommitEntry 0 1 (Loc 2 []) (Loc 3 []))]
   \<and> readMapItem no_types one_entry_source
        (MapQueueItem (SString ''a'') (Loc 2 []) TString (KeyInitialized 0))
        ([OCell (VMap 1), OMap [], OCell VZero, OCell VZero], [False])
      = Inr ([], ([OCell (VMap 1), OMap [], OCell (VString ''a''), OCell VZero], [True]))
   \<and> readMapItem no_types one_entry_source
        (MapQueueItem (SFloat 1) (Loc 3 []) TInt (CommitEntry 0 1 (Loc 2 []) (Loc 3 [])))
        ([OCell (VMap 1), OMap [], OCell (VString ''a''), OCell VZero], [True])
      = Inr ([], ([OCell (VMap 1), OMap [(VString ''a'', VInt 1)], OCell (VString ''a''),
                   OCell (VInt 1)], [True]))
   \<and> (\<exists>key val vl vtype newMap rest' h2 fl2.
         SString ''a'' = SString key
         \<and> [MapQueueItem (SFloat 1) (Loc 3 []) TInt (CommitEntry 0 1 (Loc 2 []) (Loc 3 []))]
             = MapQueueItem val vl vtype (CommitEntry 0 newMap (Loc 2 []) vl) # rest'
         \<and> readMapItem no_types one_entry_source
              (MapQueueItem (SString ''a'') (Loc 2 []) TString (KeyInitialized 0))
              ([OCell (VMap 1), OMap [], OCell VZero, OCell VZero], [False])
            = Inr ([], (h2, fl2))
         \<and> fl2 ! 0 = (\<not> coercion_fails TString (SString key)))"
proof -
  let ?root = "MapQueueItem (SMap [(''a'', SFloat 1)]) (Loc 0 []) (TMap TString TInt) NoCallback"
  let ?K = "MapQueueItem (SString ''a'') (Loc 2 []) TString (KeyInitialized 0)"
  let ?V = "MapQueueItem (SFloat 1) (Loc 3 []) TInt (CommitEntry 0 1 (Loc 2 []) (Loc 3 []))"
  let ?h1 = "[OCell (VMap 1), OMap [], OCell VZero, OCell VZero]"
  let ?h2 = "[OCell (VMap 1), OMap [], OCell (VString ''a''), OCell VZero]"
  note t1 = map_entry_protocol [where item = ?root and m = "[(''a'', SFloat 1)]"
      and h = "[OCell VZero]" and ?h1.0 = "[OCell VZero]" and tgt = "Loc 0 []"
      and kt = TString and vt = TInt and P = no_types and s = one_entry_source and fl = "[]"
      and ?v0.0 = "SMap [(''a'', SFloat 1)]" and ?tgt0.0 = "Loc 0 []"
      and ?t0.0 = "TMap TString TInt" and ?st0.0 = "([OCell VZero], [])"
      and queue = "[?K, ?V]" and st = "(?h1, [False])"]
  from t1 [THEN conjunct1, THEN mp, THEN mp, THEN mp, OF map_entry_example]
  have step: "readMapItem no_types one_entry_source ?root ([OCell VZero], [])
      = Inr ([?K, ?V], (?h1, [False]))"
    by (simp add: entry_pair_def store_def numeral_2_eq_2 numeral_3_eq_3)
  have "reaches no_types one_entry_source ([?root], ([OCell VZero], []))
     ([] @ [?K, ?V], (?h1, [False]))"
    by (rule reaches.turn [OF reaches.start step])
  then have r: "reaches no_types one_entry_source ([?root], ([OCell VZero], []))
     ([?K, ?V], (?h1, [False]))"
    by simp
  note inv = t1 [THEN conjunct2, THEN conjunct2, THEN conjunct2, THEN conjunct2,
      THEN conjunct2, THEN conjunct1, THEN mp, OF r]
  note t2 = map_entry_protocol [where item = ?K and h = ?h1 and ?h1.0 = ?h1
      and tgt = "Loc 2 []" and t = TString and x = "VString ''a''" and P = no_types
      and s = one_entry_source and fl = "[False]" and f = 0
      and ?v0.0 = "SMap [(''a'', SFloat 1)]" and ?tgt0.0 = "Loc 0 []"
      and ?t0.0 = "TMap TString TInt" and ?h0.0 = "[OCell VZero]"
      and ksrc = "SString ''a''" and kl = "Loc 2 []" and ktype = TString and rest = "[?V]"]
  note k0 = t2 [THEN conjunct2, THEN conjunct1, THEN mp, THEN mp, OF key_turn_example(1,2)]
  note k1 = t2 [THEN conjunct2, THEN conjunct2, THEN conjunct2, THEN conjunct1]
  have key: "readMapItem no_types one_entry_source ?K (?h1, [False])
      = Inr ([], (?h2, [True]))"
    using k0 k1 by (simp add: store_def)
  note p = t2 [THEN conjunct2, THEN conjunct2, THEN conjunct2, THEN conjunct2,
      THEN conjunct2, THEN conjunct2, THEN mp, THEN mp, OF r key_turn_example(3)]
  note t3 = map_entry_protocol [where item = ?V and h = ?h2 and ?h1.0 = ?h2
      and tgt = "Loc 3 []" and t = TInt and x = "VInt 1" and P = no_types
      and s = one_entry_source and fl = "[True]" and f = 0 and newMap = 1
      and k = "Loc 2 []" and v = "Loc 3 []"]
  note v0 = t3 [THEN conjunct2, THEN conjunct1, THEN mp, THEN mp, OF value_turn_example]
  have val: "readMapItem no_types one_entry_source ?V (?h2, [True])
      = Inr ([], ([OCell (VMap 1), OMap [(VString ''a'', VInt 1)], OCell (VString ''a''),
                   OCell (VInt 1)], [True]))"
    using v0 by (simp add: store_def load_def SetMapIndex_def)
  from p have ex: "\<exists>key val vl vtype newMap rest' h2 fl2.
         SString ''a'' = SString key
         \<and> [?V] = MapQueueItem val vl vtype (CommitEntry 0 newMap (Loc 2 []) vl) # rest'
         \<and> readMapItem no_types one_entry_source ?K (?h1, [False]) = Inr ([], (h2, fl2))
         \<and> fl2 ! 0 = (\<not> coercion_fails TString (SString key))"
    by blast
  show ?thesis
    by (rule conjI [OF step conjI [OF inv conjI [OF key conjI [OF val ex]]]])
qed

subsection \<open>Termination of the flat variant on reachable records\<close>










end
